theory Spec2Isabelle
  imports Complex_Main "HOL-Library.Log_Nat" "HOL-Library.Word"
begin

section \<open>Numbers of the program\<close>

text \<open>
  The scanner computes prices and profits with Python's \<^verbatim>\<open>decimal.Decimal\<close> under
  \<^verbatim>\<open>getcontext().prec = 18\<close> and the default rounding mode ROUND_HALF_EVEN, and display
  amounts with Python floats. A finite \<^verbatim>\<open>Decimal\<close> and a finite float are modelled by the
  rational number they denote. Every arithmetic operation computes the exact result and
  rounds it to the precision of the context, so the result of an operation depends on the
  values of its operands only. Not represented: the sign of a zero, trailing zeros of a
  coefficient, and the exponent limits of the context (Emax = 999999, Emin = -999999), so
  the model has no Overflow and no underflow to zero. Prices computed from a 128-bit
  square-root price lie between 2.9E-36 and 3.5E+41, and every result of the calculation on
  such prices stays below 1E+78 in magnitude; the statement about raising is made for
  these prices. The signals DivisionByZero and InvalidOperation, which the default context
  traps, are error values.
\<close>

type_synonym decimal = rat
type_synonym pyfloat = rat

text \<open>Rounding to the nearest integer, ties to the even neighbour.\<close>

definition round_half_even :: "rat \<Rightarrow> int" where
  "round_half_even x =
     (let n = \<lfloor>x\<rfloor>; r = x - of_int n
      in if r < 1 / 2 then n
         else if 1 / 2 < r then n + 1
         else if even n then n else n + 1)"

text \<open>
  The adjusted exponent of a non-zero number in base \<open>b\<close>: the exponent of its leading
  digit, that is the \<open>e\<close> with \<open>b\<^sup>e \<le> |q| < b\<^sup>e\<^sup>+\<^sup>1\<close>. \<open>floorlog b n\<close> is the number of
  base-\<open>b\<close> digits of \<open>n\<close>.
\<close>

definition adjusted :: "nat \<Rightarrow> rat \<Rightarrow> int" where
  "adjusted b q =
     (if 1 \<le> \<bar>q\<bar> then int (floorlog b (nat \<lfloor>\<bar>q\<bar>\<rfloor>)) - 1
      else - int (floorlog b (nat (\<lceil>1 / \<bar>q\<bar>\<rceil> - 1))))"

text \<open>Rounding to \<open>p\<close> significant digits in base \<open>b\<close>, half-even.\<close>

definition round_sig :: "nat \<Rightarrow> nat \<Rightarrow> rat \<Rightarrow> rat" where
  "round_sig b p q =
     (if q = 0 then 0
      else let x = adjusted b q - int p + 1
           in sgn q * of_int (round_half_even (\<bar>q\<bar> / of_nat b powi x)) * of_nat b powi x)"

text \<open>
  A number with at most \<open>p\<close> significant digits in base \<open>b\<close>: the values a rounding
  returns unchanged. A predicate of the proofs; the program does not compute it.
\<close>

definition representable :: "nat \<Rightarrow> nat \<Rightarrow> rat \<Rightarrow> bool" where
  "representable b p v \<longleftrightarrow> (\<exists>m k. \<bar>m\<bar> < int b ^ p \<and> v = of_int m * of_nat b powi k)"

text \<open>\<^verbatim>\<open>getcontext().prec = 18\<close> (line 14).\<close>

definition prec :: nat where
  "prec = 18"

datatype error =
    RuntimeError string
  | ValueError string
  | DivisionByZero
  | InvalidOperation
  | RpcError string

definition and_then :: "error + 'a \<Rightarrow> ('a \<Rightarrow> error + 'b) \<Rightarrow> error + 'b" where
  "and_then r f = (case r of Inl e \<Rightarrow> Inl e | Inr v \<Rightarrow> f v)"

text \<open>\<^verbatim>\<open>Decimal(n)\<close> of an integer is exact, whatever the precision.\<close>

definition Decimal :: "int \<Rightarrow> decimal" where
  "Decimal n = of_int n"

definition dec_add :: "decimal \<Rightarrow> decimal \<Rightarrow> decimal" where
  "dec_add x y = round_sig 10 prec (x + y)"

definition dec_sub :: "decimal \<Rightarrow> decimal \<Rightarrow> decimal" where
  "dec_sub x y = round_sig 10 prec (x - y)"

definition dec_mul :: "decimal \<Rightarrow> decimal \<Rightarrow> decimal" where
  "dec_mul x y = round_sig 10 prec (x * y)"

definition dec_div :: "decimal \<Rightarrow> decimal \<Rightarrow> error + decimal" where
  "dec_div x y =
     (if y = 0 then (if x = 0 then Inl InvalidOperation else Inl DivisionByZero)
      else Inr (round_sig 10 prec (x / y)))"

text \<open>
  \<^verbatim>\<open>x ** 2\<close>: the interpreter's decimal module multiplies \<open>x\<close> by itself in a working
  context of three more digits (the precision, plus two, plus the one digit of the
  exponent 2) and then rounds the product to the precision of the context.
\<close>

definition dec_pow2 :: "decimal \<Rightarrow> decimal" where
  "dec_pow2 x = round_sig 10 prec (round_sig 10 (prec + 3) (x * x))"

text \<open>
  \<^verbatim>\<open>a / b\<close> on two Python integers is the binary64 float nearest to the quotient (ties to
  even). The divisor is a non-zero literal at each call site, and every quotient of the
  program lies in the normal range of binary64.
\<close>

definition float_truediv :: "int \<Rightarrow> int \<Rightarrow> pyfloat" where
  "float_truediv a b = round_sig 2 53 (of_int a / of_int b)"

section \<open>Bytes and account identifiers\<close>

type_synonym byte = "8 word"

text \<open>\<^verbatim>\<open>data[i:j]\<close> for \<open>0 \<le> i \<le> j\<close>; a bytes_slice past the end is cut short.\<close>

definition bytes_slice :: "nat \<Rightarrow> nat \<Rightarrow> 'a list \<Rightarrow> 'a list" where
  "bytes_slice i j xs = take (j - i) (drop i xs)"

text \<open>\<^verbatim>\<open>int.from_bytes(bs, "little")\<close>.\<close>

fun int_from_bytes_little :: "byte list \<Rightarrow> int" where
  "int_from_bytes_little [] = 0"
| "int_from_bytes_little (b # bs) = uint b + 256 * int_from_bytes_little bs"

text \<open>\<^verbatim>\<open>int.from_bytes(bs, "little", signed=True)\<close>: two's complement.\<close>

definition int_from_bytes_little_signed :: "byte list \<Rightarrow> int" where
  "int_from_bytes_little_signed bs =
     (let v = int_from_bytes_little bs
      in if bs \<noteq> [] \<and> 2 ^ (8 * length bs - 1) \<le> v then v - 2 ^ (8 * length bs) else v)"

text \<open>
  \<^verbatim>\<open>Pubkey.from_bytes\<close> takes exactly 32 bytes; \<^verbatim>\<open>str\<close> of a key is its base-58 text:
  one \<^verbatim>\<open>1\<close> for each leading zero byte, then the big-endian value in base 58.
\<close>

datatype pubkey = Pubkey "byte list"

definition Pubkey_from_bytes :: "byte list \<Rightarrow> error + pubkey" where
  "Pubkey_from_bytes bs =
     (if length bs = 32 then Inr (Pubkey bs) else Inl (ValueError ''expected 32 bytes''))"

definition b58_alphabet :: string where
  "b58_alphabet = ''123456789ABCDEFGHJKLMNPQRSTUVWXYZabcdefghijkmnopqrstuvwxyz''"

fun int_from_bytes_big :: "nat \<Rightarrow> byte list \<Rightarrow> nat" where
  "int_from_bytes_big acc [] = acc"
| "int_from_bytes_big acc (b # bs) = int_from_bytes_big (256 * acc + unat b) bs"

function b58_digits :: "nat \<Rightarrow> string" where
  "b58_digits n = (if n = 0 then [] else b58_digits (n div 58) @ [b58_alphabet ! (n mod 58)])"
  by pat_completeness auto
termination
  by (relation "measure id") auto

definition str_pubkey :: "pubkey \<Rightarrow> string" where
  "str_pubkey k =
     (case k of Pubkey bs \<Rightarrow>
        replicate (length (takeWhile (\<lambda>b. b = 0) bs)) (CHR ''1'')
          @ b58_digits (int_from_bytes_big 0 bs))"

section \<open>The account source\<close>

text \<open>
  \<^verbatim>\<open>client.get_account_info(Pubkey.from_string(address))\<close> either raises (a malformed
  address, a transport failure) or returns a response whose \<^verbatim>\<open>value\<close> is \<^verbatim>\<open>None\<close> or an
  account with its lamports and its data bytes. The client is a function from the address
  to that outcome.
\<close>

record account =
  lamports :: int
  data :: "byte list"

datatype rpc_response = Raises error | Response "account option"

type_synonym rpc_client = "string \<Rightarrow> rpc_response"

section \<open>get_vault_balance (lines 71-94)\<close>

record vault_balance =
  raw :: int
  display :: pyfloat
  token :: string

definition get_vault_balance :: "rpc_client \<Rightarrow> string \<Rightarrow> bool \<Rightarrow> vault_balance" where
  "get_vault_balance client vault_address is_usdc =
     (case client vault_address of
        Raises e \<Rightarrow>
          \<lparr>raw = 0, display = 0, token = (if is_usdc then ''USDC'' else ''SOL'')\<rparr>
      | Response None \<Rightarrow>
          \<lparr>raw = 0, display = 0, token = (if is_usdc then ''USDC'' else ''SOL'')\<rparr>
      | Response (Some value) \<Rightarrow>
          if is_usdc then
            if 72 \<le> length (data value) then
              let amount = int_from_bytes_little (bytes_slice 64 72 (data value));
                  display = float_truediv amount 1000000
              in \<lparr>raw = amount, display = display, token = ''USDC''\<rparr>
            else \<lparr>raw = 0, display = 0, token = ''USDC''\<rparr>
          else
            let lamports = lamports value;
                display = float_truediv lamports 1000000000
            in \<lparr>raw = lamports, display = display, token = ''SOL''\<rparr>)"

section \<open>sqrt_price_to_price (lines 96-100)\<close>

definition sqrt_price_to_price :: "int \<Rightarrow> error + decimal" where
  "sqrt_price_to_price sqrt_price_x64 =
     and_then (dec_div (Decimal sqrt_price_x64) (Decimal (2 ^ 64))) (\<lambda>sqrt_price.
       let price = dec_pow2 sqrt_price
       in dec_div (dec_mul price (Decimal (10 ^ 9))) (Decimal (10 ^ 6)))"

section \<open>decode_whirlpool (lines 102-143)\<close>

record whirlpool_info =
  price :: decimal
  sqrt_price_x64 :: int
  liquidity_raw :: int
  liquidity :: pyfloat
  vault_a :: string
  vault_b :: string
  tick_current_index :: int
  tick_spacing :: int
  tick_array_0 :: string
  tick_array_1 :: string
  tick_array_2 :: string

definition decode_whirlpool :: "rpc_client \<Rightarrow> string \<Rightarrow> error + whirlpool_info" where
  "decode_whirlpool client pool_pubkey =
     (case client pool_pubkey of
        Raises e \<Rightarrow> Inl e
      | Response None \<Rightarrow> Inl (RuntimeError ''Failed to fetch Whirlpool account'')
      | Response (Some value) \<Rightarrow>
          let data = data value
          in if length data \<noteq> 653 then Inl (RuntimeError ''Not a Whirlpool account'')
             else
               let sqrt_price_x64 = int_from_bytes_little (bytes_slice 65 81 data);
                   liquidity_raw = int_from_bytes_little (bytes_slice 85 101 data);
                   liquidity_display =
                     (if 0 < liquidity_raw then float_truediv liquidity_raw (2 ^ 64) else 0);
                   tick_current_index = int_from_bytes_little_signed (bytes_slice 81 85 data);
                   tick_spacing = int_from_bytes_little (bytes_slice 101 103 data)
               in and_then (Pubkey_from_bytes (bytes_slice 104 136 data)) (\<lambda>vault_a.
                  and_then (Pubkey_from_bytes (bytes_slice 136 168 data)) (\<lambda>vault_b.
                  and_then (Pubkey_from_bytes (bytes_slice 168 200 data)) (\<lambda>tick_array_0.
                  and_then (Pubkey_from_bytes (bytes_slice 200 232 data)) (\<lambda>tick_array_1.
                  and_then (Pubkey_from_bytes (bytes_slice 232 264 data)) (\<lambda>tick_array_2.
                  and_then (sqrt_price_to_price sqrt_price_x64) (\<lambda>price.
                    Inr \<lparr>price = price,
                         sqrt_price_x64 = sqrt_price_x64,
                         liquidity_raw = liquidity_raw,
                         liquidity = liquidity_display,
                         vault_a = str_pubkey vault_a,
                         vault_b = str_pubkey vault_b,
                         tick_current_index = tick_current_index,
                         tick_spacing = tick_spacing,
                         tick_array_0 = str_pubkey tick_array_0,
                         tick_array_1 = str_pubkey tick_array_1,
                         tick_array_2 = str_pubkey tick_array_2\<rparr>)))))))"

section \<open>The arbitrage calculation (lines 64-66, 148-205)\<close>

definition MIN_PROFIT_THRESHOLD :: decimal where
  "MIN_PROFIT_THRESHOLD = 1 / 100000"

definition OPTIMAL_PROFIT_THRESHOLD :: decimal where
  "OPTIMAL_PROFIT_THRESHOLD = 1 / 10000"

text \<open>
  An entry of \<^verbatim>\<open>pools_data\<close>. The calculation reads the name, the price and the fee rate;
  the display fields the scanner stores beside them are carried along unread.
\<close>

record pool_data =
  address :: string
  name :: string
  price :: decimal
  fee_rate :: decimal

text \<open>
  The dictionary \<^verbatim>\<open>calculate_arbitrage_simple\<close> returns. The early return for a zero
  price has the keys \<^verbatim>\<open>profitable\<close>, \<^verbatim>\<open>profit_pct\<close> and \<^verbatim>\<open>uses_sdk\<close> only; a key that is
  absent is \<open>None\<close>.
\<close>

record arbitrage =
  profitable :: bool
  optimal :: "bool option"
  profit_pct :: decimal
  direction :: "string option"
  buy_price :: "decimal option"
  sell_price :: "decimal option"
  total_fees :: "decimal option"
  uses_sdk :: bool

definition calculate_arbitrage_simple :: "pool_data \<Rightarrow> pool_data \<Rightarrow> error + arbitrage" where
  "calculate_arbitrage_simple pool1_data pool2_data =
     (let pool1_price = price pool1_data;
          pool2_price = price pool2_data;
          pool1_fee = fee_rate pool1_data;
          pool2_fee = fee_rate pool2_data
      in if pool1_price = 0 \<or> pool2_price = 0 then
           Inr \<lparr>profitable = False, optimal = None, profit_pct = 0, direction = None,
                buy_price = None, sell_price = None, total_fees = None, uses_sdk = False\<rparr>
         else
           let (buy_price, sell_price, buy_fee, sell_fee, direction) =
                 (if pool1_price < pool2_price then
                    (pool1_price, pool2_price, pool1_fee, pool2_fee,
                     name pool1_data @ '' -> '' @ name pool2_data)
                  else
                    (pool2_price, pool1_price, pool2_fee, pool1_fee,
                     name pool2_data @ '' -> '' @ name pool1_data));
               cost = dec_mul buy_price (dec_add 1 buy_fee);
               revenue = dec_mul sell_price (dec_sub 1 sell_fee)
           in and_then (dec_div (dec_sub revenue cost) cost) (\<lambda>profit_pct.
                Inr \<lparr>profitable = (MIN_PROFIT_THRESHOLD \<le> profit_pct),
                     optimal = Some (OPTIMAL_PROFIT_THRESHOLD \<le> profit_pct),
                     profit_pct = profit_pct,
                     direction = Some direction,
                     buy_price = Some buy_price,
                     sell_price = Some sell_price,
                     total_fees = Some (dec_add buy_fee sell_fee),
                     uses_sdk = False\<rparr>))"

record opportunity =
  pool1 :: pool_data
  pool2 :: pool_data
  arbitrage :: arbitrage

text \<open>
  The inner loop \<^verbatim>\<open>for j in range(i + 1, len(pools_data))\<close> over the remaining values of
  \<open>j\<close>, with the list of opportunities found so far; an exception of the calculation ends
  the scan.
\<close>

fun inner_loop ::
  "pool_data list \<Rightarrow> nat \<Rightarrow> nat list \<Rightarrow> opportunity list \<Rightarrow> error + opportunity list" where
  "inner_loop pools_data i [] opportunities = Inr opportunities"
| "inner_loop pools_data i (j # js) opportunities =
     (let pool1 = pools_data ! i; pool2 = pools_data ! j
      in and_then (calculate_arbitrage_simple pool1 pool2) (\<lambda>arb.
           inner_loop pools_data i js
             (if profitable arb
              then opportunities @ [\<lparr>pool1 = pool1, pool2 = pool2, arbitrage = arb\<rparr>]
              else opportunities)))"

text \<open>The outer loop \<^verbatim>\<open>for i in range(len(pools_data))\<close>.\<close>

fun outer_loop ::
  "pool_data list \<Rightarrow> nat list \<Rightarrow> opportunity list \<Rightarrow> error + opportunity list" where
  "outer_loop pools_data [] opportunities = Inr opportunities"
| "outer_loop pools_data (i # is) opportunities =
     and_then (inner_loop pools_data i [i + 1..<length pools_data] opportunities)
       (outer_loop pools_data is)"

definition find_arbitrage_opportunities :: "pool_data list \<Rightarrow> error + opportunity list" where
  "find_arbitrage_opportunities pools_data =
     outer_loop pools_data [0..<length pools_data] []"

text \<open>
  The dictionary of the early return for a zero price (line 156), and the dictionary the
  calculation builds once the buy side and the sell side are fixed (lines 171-184).
\<close>

definition no_trade :: arbitrage where
  "no_trade = \<lparr>profitable = False, optimal = None, profit_pct = 0, direction = None,
               buy_price = None, sell_price = None, total_fees = None, uses_sdk = False\<rparr>"

definition round_trip :: "pool_data \<Rightarrow> pool_data \<Rightarrow> error + arbitrage" where
  "round_trip buy sell =
     (let cost = dec_mul (price buy) (dec_add 1 (fee_rate buy));
          revenue = dec_mul (price sell) (dec_sub 1 (fee_rate sell))
      in and_then (dec_div (dec_sub revenue cost) cost) (\<lambda>profit_pct.
           Inr \<lparr>profitable = (MIN_PROFIT_THRESHOLD \<le> profit_pct),
                optimal = Some (OPTIMAL_PROFIT_THRESHOLD \<le> profit_pct),
                profit_pct = profit_pct,
                direction = Some (name buy @ '' -> '' @ name sell),
                buy_price = Some (price buy),
                sell_price = Some (price sell),
                total_fees = Some (dec_add (fee_rate buy) (fee_rate sell)),
                uses_sdk = False\<rparr>))"

text \<open>
  A quote as the data model describes it: a price that is not negative and a fee rate in
  \<open>[0, 1)\<close>.
\<close>

definition well_formed_quote :: "pool_data \<Rightarrow> bool" where
  "well_formed_quote q \<longleftrightarrow> 0 \<le> price q \<and> 0 \<le> fee_rate q \<and> fee_rate q < 1"

text \<open>
  The order of the scan in the words of the specification: every pair \<open>(i, j)\<close> with
  \<open>i < j\<close>, \<open>i\<close> ascending, then \<open>j\<close> ascending; and what one pair contributes to the
  result, its opportunity when the calculation returns and calls it profitable.
\<close>

definition index_pairs :: "nat \<Rightarrow> (nat \<times> nat) list" where
  "index_pairs n = concat (map (\<lambda>i. map (\<lambda>j. (i, j)) [i + 1..<n]) [0..<n])"

definition pair_opportunity :: "pool_data list \<Rightarrow> nat \<Rightarrow> nat \<Rightarrow> opportunity list" where
  "pair_opportunity pools_data i j =
     (case calculate_arbitrage_simple (pools_data ! i) (pools_data ! j) of
        Inl e \<Rightarrow> []
      | Inr arb \<Rightarrow>
          if profitable arb
          then [\<lparr>pool1 = pools_data ! i, pool2 = pools_data ! j, arbitrage = arb\<rparr>]
          else [])"

text \<open>
  The range of \<open>sqrt_price_to_price\<close> on a non-zero 128-bit square-root price: its values
  at 1 and at \<open>2\<^sup>1\<^sup>2\<^sup>8 - 1\<close>. A quote of the scanner has a fee rate in \<open>[0, 1)\<close> and a
  price that is 0 or lies in this range.
\<close>

definition MIN_PRICE :: decimal where
  "MIN_PRICE = 293873587705571877 / 10 ^ 53"

definition MAX_PRICE :: decimal where
  "MAX_PRICE = 340282366920938463 * 10 ^ 24"

definition normalized_quote :: "pool_data \<Rightarrow> bool" where
  "normalized_quote q \<longleftrightarrow>
     0 \<le> fee_rate q \<and> fee_rate q < 1
     \<and> (price q = 0 \<or> (MIN_PRICE \<le> price q \<and> price q \<le> MAX_PRICE))"

section \<open>Sample inputs\<close>

text \<open>The addresses of the first predefined pool and of its two vaults (lines 48-52).\<close>

definition pool_address :: string where
  "pool_address = ''7qbRF6YsyGuLUVs6Y1q64bdVrfe4ZcUUz1JRdoVNUJnm''"

definition vault_a_address :: string where
  "vault_a_address = ''9RfZwn2Prux6QesG1Noo4HzMEBv3rPndJ2bN2Wwd6a7p''"

definition vault_b_address :: string where
  "vault_b_address = ''BVNo8ftg2LkkssnWT4ZWdtoFaevnfD6ExYeramwM27pe''"

text \<open>A client that answers every request with an account holding the given data.\<close>

definition token_client :: "byte list \<Rightarrow> rpc_client" where
  "token_client bs addr = Response (Some \<lparr>lamports = 2039280, data = bs\<rparr>)"

text \<open>A client whose every request raises.\<close>

definition failing_client :: rpc_client where
  "failing_client addr = Raises (RpcError ''connection refused'')"

text \<open>
  A pool account of 653 bytes: square-root price 513, tick index -1, liquidity 3 and tick
  spacing 64 at their offsets, every other byte zero.
\<close>

definition sample_pool :: "byte list" where
  "sample_pool =
     replicate 65 0
     @ [1, 2, 0, 0, 0, 0, 0, 0, 0, 0, 0, 0, 0, 0, 0, 0]
     @ [255, 255, 255, 255]
     @ [3, 0, 0, 0, 0, 0, 0, 0, 0, 0, 0, 0, 0, 0, 0, 0]
     @ [64, 0]
     @ replicate 550 0"

text \<open>Quotes for the calculation, and the dictionary of a trade between two quotes without fees.\<close>

definition quote :: "string \<Rightarrow> decimal \<Rightarrow> decimal \<Rightarrow> pool_data" where
  "quote n p f = \<lparr>address = n, name = n, price = p, fee_rate = f\<rparr>"

definition free_trade :: "pool_data \<Rightarrow> pool_data \<Rightarrow> decimal \<Rightarrow> arbitrage" where
  "free_trade buy sell p =
     \<lparr>profitable = (1 / 100000 \<le> p), optimal = Some (1 / 10000 \<le> p), profit_pct = p,
      direction = Some (name buy @ '' -> '' @ name sell),
      buy_price = Some (price buy), sell_price = Some (price sell),
      total_fees = Some 0, uses_sdk = False\<rparr>"

definition three_pools :: "pool_data list" where
  "three_pools = [quote ''P1'' 1 0, quote ''P2'' 2 0, quote ''P4'' 4 0]"

definition three_opportunities :: "opportunity list" where
  "three_opportunities =
     [\<lparr>pool1 = quote ''P1'' 1 0, pool2 = quote ''P2'' 2 0,
       arbitrage = free_trade (quote ''P1'' 1 0) (quote ''P2'' 2 0) 1\<rparr>,
      \<lparr>pool1 = quote ''P1'' 1 0, pool2 = quote ''P4'' 4 0,
       arbitrage = free_trade (quote ''P1'' 1 0) (quote ''P4'' 4 0) 3\<rparr>,
      \<lparr>pool1 = quote ''P2'' 2 0, pool2 = quote ''P4'' 4 0,
       arbitrage = free_trade (quote ''P2'' 2 0) (quote ''P4'' 4 0) 1\<rparr>]"

text \<open>
  Two pools of the same fee tier, 0.01 percent, at the prices 150 and 155, and the
  dictionary of the trade between them.
\<close>

definition pool_a :: pool_data where
  "pool_a = quote ''A'' 150 (1 / 10000)"

definition pool_b :: pool_data where
  "pool_b = quote ''B'' 155 (1 / 10000)"

definition trade_a_b :: arbitrage where
  "trade_a_b =
     \<lparr>profitable = True, optimal = Some True, profit_pct = 331266873312668733 / 10 ^ 19,
      direction = Some ''A -> B'', buy_price = Some 150, sell_price = Some 155,
      total_fees = Some (1 / 5000), uses_sdk = False\<rparr>"

text \<open>A scan of three pools, the first without a price.\<close>

definition scan_pools :: "pool_data list" where
  "scan_pools = [quote ''P0'' 0 (1 / 2000), pool_a, pool_b]"

section \<open>Rounding: the adjusted exponent\<close>

lemma of_nat_succ_le:
  assumes "m < n"
  shows "of_nat m + 1 \<le> (of_nat n :: rat)"
proof -
  have "Suc m \<le> n" using assms by simp
  then have "(of_nat (Suc m) :: rat) \<le> of_nat n" by (simp only: of_nat_le_iff)
  then show ?thesis by simp
qed

lemma adjusted_bounds_ge1:
  assumes b: "1 < b" and q: "1 \<le> \<bar>q\<bar>"
  shows "of_nat b powi adjusted b q \<le> \<bar>q\<bar>" "\<bar>q\<bar> < of_nat b powi (adjusted b q + 1)"
proof -
  define m where "m = nat \<lfloor>\<bar>q\<bar>\<rfloor>"
  define L where "L = floorlog b m"
  have m1: "0 < m" using q by (simp add: m_def le_floor_iff)
  have fb: "b ^ (L - 1) \<le> m" "m < b ^ L"
    using floorlog_bounds[OF m1 b] by (simp_all add: L_def)
  have L1: "0 < L" using m1 b by (simp add: L_def floorlog_def)
  have adj: "adjusted b q = int L - 1"
    using q by (simp add: adjusted_def L_def m_def)
  have mq: "(of_nat m :: rat) \<le> \<bar>q\<bar>" "\<bar>q\<bar> < of_nat m + 1"
    using q floor_correct[of "\<bar>q\<bar>"] by (simp_all add: m_def)
  have "(of_nat b :: rat) powi (int L - 1) = of_nat b ^ (L - 1)"
    using L1 by (simp add: power_int_def nat_diff_distrib')
  also have "\<dots> = of_nat (b ^ (L - 1))" by simp
  also have "\<dots> \<le> of_nat m" using fb(1) by (simp only: of_nat_le_iff)
  finally show "of_nat b powi adjusted b q \<le> \<bar>q\<bar>" using mq(1) adj by simp
  have "of_nat m + 1 \<le> (of_nat (b ^ L) :: rat)"
    using fb(2) by (rule of_nat_succ_le)
  also have "\<dots> = of_nat b powi (int L - 1 + 1)" by (simp add: power_int_def)
  finally show "\<bar>q\<bar> < of_nat b powi (adjusted b q + 1)" using mq(2) adj by simp
qed

lemma adjusted_bounds_lt1:
  assumes b: "1 < b" and q0: "q \<noteq> 0" and q: "\<bar>q\<bar> < 1"
  shows "of_nat b powi adjusted b q \<le> \<bar>q\<bar>" "\<bar>q\<bar> < of_nat b powi (adjusted b q + 1)"
proof -
  define r where "r = 1 / \<bar>q\<bar>"
  define m where "m = nat (\<lceil>r\<rceil> - 1)"
  define L where "L = floorlog b m"
  have r1: "1 < r" using q q0 by (simp add: r_def)
  have c2: "2 \<le> \<lceil>r\<rceil>" using r1 by (simp add: le_ceiling_iff)
  have m1: "0 < m" using c2 by (simp add: m_def)
  have fb: "b ^ (L - 1) \<le> m" "m < b ^ L"
    using floorlog_bounds[OF m1 b] by (simp_all add: L_def)
  have L1: "0 < L" using m1 b by (simp add: L_def floorlog_def)
  have adj: "adjusted b q = - int L"
    using q by (simp add: adjusted_def L_def m_def r_def)
  have mr: "(of_nat m :: rat) < r" "r \<le> of_nat m + 1"
  proof -
    have "(of_nat m :: rat) = of_int (\<lceil>r\<rceil> - 1)" using c2 by (simp add: m_def)
    then show "(of_nat m :: rat) < r" "r \<le> of_nat m + 1"
      using ceiling_correct[of r] by simp_all
  qed
  have bpos: "(0::rat) < of_nat b" using b by simp
  have "r \<le> of_nat m + 1" by (rule mr(2))
  also have "\<dots> \<le> (of_nat (b ^ L) :: rat)"
    using fb(2) by (rule of_nat_succ_le)
  also have "\<dots> = of_nat b ^ L" by simp
  finally have rL: "r \<le> of_nat b ^ L" .
  have "of_nat b powi (- int L) = 1 / (of_nat b :: rat) ^ L"
    by (simp add: power_int_def field_simps)
  also have "\<dots> \<le> 1 / r"
    using rL r1 b by (intro divide_left_mono) (auto intro!: mult_pos_pos)
  also have "\<dots> = \<bar>q\<bar>" by (simp add: r_def)
  finally show "of_nat b powi adjusted b q \<le> \<bar>q\<bar>" using adj by simp
  have "(of_nat b :: rat) ^ (L - 1) = of_nat (b ^ (L - 1))" by simp
  also have "\<dots> \<le> of_nat m" using fb(1) by (simp only: of_nat_le_iff)
  also have "\<dots> < r" by (rule mr(1))
  finally have lr: "(of_nat b :: rat) ^ (L - 1) < r" .
  have pw: "(0::rat) < of_nat b ^ (L - 1)" using bpos by simp
  have "\<bar>q\<bar> = 1 / r" by (simp add: r_def)
  also have "\<dots> < 1 / (of_nat b :: rat) ^ (L - 1)"
    using lr pw r1 b by (intro divide_strict_left_mono) (auto intro!: mult_pos_pos)
  also have "\<dots> = of_nat b powi (- int L + 1)"
    using L1 by (simp add: power_int_def field_simps nat_diff_distrib')
  finally show "\<bar>q\<bar> < of_nat b powi (adjusted b q + 1)" using adj by simp
qed

lemma adjusted_bounds:
  assumes "1 < b" "q \<noteq> 0"
  shows "of_nat b powi adjusted b q \<le> \<bar>q\<bar>" "\<bar>q\<bar> < of_nat b powi (adjusted b q + 1)"
  using adjusted_bounds_ge1[OF assms(1), of q] adjusted_bounds_lt1[OF assms, of]
  by (cases "1 \<le> \<bar>q\<bar>"; simp)+

lemma adjusted_unique:
  assumes b: "1 < b" and lo: "of_nat b powi e \<le> \<bar>q\<bar>" and hi: "\<bar>q\<bar> < of_nat b powi (e + 1)"
  shows "adjusted b q = e"
proof -
  have B: "(1::rat) < of_nat b" using b by simp
  have "(0::rat) < of_nat b powi e" using B by simp
  then have q0: "q \<noteq> 0" using lo by auto
  note ab = adjusted_bounds[OF b q0]
  have "of_nat b powi adjusted b q < (of_nat b :: rat) powi (e + 1)"
    using ab(1) hi by simp
  then have 1: "adjusted b q < e + 1"
    using power_int_increasing[of "e + 1" "adjusted b q" "of_nat b :: rat"] B
    by (cases "adjusted b q < e + 1") auto
  have "of_nat b powi e < (of_nat b :: rat) powi (adjusted b q + 1)"
    using ab(2) lo by simp
  then have 2: "e < adjusted b q + 1"
    using power_int_increasing[of "adjusted b q + 1" e "of_nat b :: rat"] B
    by (cases "e < adjusted b q + 1") auto
  from 1 2 show ?thesis by simp
qed

lemma adjusted_abs: "adjusted b \<bar>q\<bar> = adjusted b q"
  by (simp add: adjusted_def)

lemma adjusted_mono:
  assumes b: "1 < b" and q0: "q1 \<noteq> 0" and le: "\<bar>q1\<bar> \<le> \<bar>q2\<bar>"
  shows "adjusted b q1 \<le> adjusted b q2"
proof -
  have B: "(1::rat) < of_nat b" using b by simp
  have q2: "q2 \<noteq> 0" using q0 le by auto
  have "of_nat b powi adjusted b q1 < (of_nat b :: rat) powi (adjusted b q2 + 1)"
    using adjusted_bounds(1)[OF b q0] adjusted_bounds(2)[OF b q2] le by simp
  then have "adjusted b q1 < adjusted b q2 + 1"
    using power_int_increasing[of "adjusted b q2 + 1" "adjusted b q1" "of_nat b :: rat"] B
    by (cases "adjusted b q1 < adjusted b q2 + 1") auto
  then show ?thesis by simp
qed

section \<open>Rounding: half-even to an integer\<close>

lemma round_half_even_of_int [simp]: "round_half_even (of_int k) = k"
  by (simp add: round_half_even_def)

lemma round_half_even_range:
  "\<lfloor>x\<rfloor> \<le> round_half_even x" "round_half_even x \<le> \<lfloor>x\<rfloor> + 1"
  by (simp_all add: round_half_even_def Let_def)

lemma round_half_even_mono:
  assumes "x \<le> y"
  shows "round_half_even x \<le> round_half_even y"
proof (cases "\<lfloor>x\<rfloor> = \<lfloor>y\<rfloor>")
  case True
  then show ?thesis using assms by (auto simp: round_half_even_def Let_def)
next
  case False
  then have "\<lfloor>x\<rfloor> + 1 \<le> \<lfloor>y\<rfloor>" using floor_mono[OF assms] by simp
  then show ?thesis
    using round_half_even_range(2)[of x] round_half_even_range(1)[of y] by linarith
qed

lemma round_half_even_error: "\<bar>of_int (round_half_even x) - x\<bar> \<le> 1 / 2"
proof -
  have "of_int \<lfloor>x\<rfloor> \<le> x" "x < of_int \<lfloor>x\<rfloor> + 1"
    using floor_correct[of x] by simp_all
  then show ?thesis
    by (auto simp: round_half_even_def Let_def abs_le_iff)
qed

lemma round_half_even_near:
  assumes "\<bar>x - of_int n\<bar> < 1 / 2"
  shows "round_half_even x = n"
proof -
  have "\<bar>of_int (round_half_even x) - (of_int n :: rat)\<bar> < 1"
    using round_half_even_error[of x] assms by linarith
  then have "\<bar>(of_int (round_half_even x - n) :: rat)\<bar> < of_int 1" by simp
  then have "\<bar>round_half_even x - n\<bar> < 1"
    by (simp only: of_int_abs[symmetric] of_int_less_iff)
  then show ?thesis by simp
qed

section \<open>Rounding to significant digits\<close>

lemma round_sig_zero [simp]: "round_sig b p 0 = 0"
  by (simp add: round_sig_def)

lemma round_sig_minus: "round_sig b p (- q) = - round_sig b p q"
  by (simp add: round_sig_def adjusted_def Let_def)

lemma powi_split:
  fixes B :: rat
  assumes "B \<noteq> 0" "e = a + c"
  shows "B powi e = B powi a * B powi c"
  using assms power_int_add[of B a c] by simp

lemma scaled_bounds:
  fixes p :: nat
  assumes b: "1 < b" and q0: "q \<noteq> 0"
  defines "x \<equiv> adjusted b q - int p + 1"
  shows "of_nat b powi (int p - 1) \<le> \<bar>q\<bar> / of_nat b powi x"
    and "\<bar>q\<bar> / of_nat b powi x < of_nat b powi int p"
proof -
  have B: "(0::rat) < of_nat b" using b by simp
  have Bx: "(0::rat) < of_nat b powi x" using B by simp
  have B0: "(of_nat b :: rat) \<noteq> 0" using B by simp
  have e1: "(of_nat b :: rat) powi adjusted b q = of_nat b powi (int p - 1) * of_nat b powi x"
    by (rule powi_split[OF B0]) (simp add: x_def)
  have e2: "(of_nat b :: rat) powi (adjusted b q + 1) = of_nat b powi int p * of_nat b powi x"
    by (rule powi_split[OF B0]) (simp add: x_def)
  show "of_nat b powi (int p - 1) \<le> \<bar>q\<bar> / of_nat b powi x"
    using adjusted_bounds(1)[OF b q0] Bx unfolding e1 by (simp add: pos_le_divide_eq)
  show "\<bar>q\<bar> / of_nat b powi x < of_nat b powi int p"
    using adjusted_bounds(2)[OF b q0] Bx unfolding e2 by (simp add: pos_divide_less_eq)
qed

lemma coeff_bounds:
  assumes b: "1 < b" and p: "0 < p" and q0: "q \<noteq> 0"
  defines "x \<equiv> adjusted b q - int p + 1"
  shows "int b ^ (p - 1) \<le> round_half_even (\<bar>q\<bar> / of_nat b powi x)"
    and "round_half_even (\<bar>q\<bar> / of_nat b powi x) \<le> int b ^ p"
proof -
  have lo: "(of_int (int b ^ (p - 1)) :: rat) = of_nat b powi (int p - 1)"
    using p by (simp add: power_int_def nat_diff_distrib')
  have hi: "(of_int (int b ^ p) :: rat) = of_nat b powi int p"
    by (simp add: power_int_def)
  have "round_half_even (of_int (int b ^ (p - 1))) \<le> round_half_even (\<bar>q\<bar> / of_nat b powi x)"
    unfolding lo x_def by (intro round_half_even_mono scaled_bounds(1)[OF b q0])
  then show "int b ^ (p - 1) \<le> round_half_even (\<bar>q\<bar> / of_nat b powi x)"
    by (simp only: round_half_even_of_int)
  have "round_half_even (\<bar>q\<bar> / of_nat b powi x) \<le> round_half_even (of_int (int b ^ p))"
    unfolding hi x_def by (intro round_half_even_mono less_imp_le scaled_bounds(2)[OF b q0])
  then show "round_half_even (\<bar>q\<bar> / of_nat b powi x) \<le> int b ^ p"
    by (simp only: round_half_even_of_int)
qed

lemma round_sig_pos_eq:
  assumes "0 < q"
  shows "round_sig b p q =
    of_int (round_half_even (q / of_nat b powi (adjusted b q - int p + 1))) *
      of_nat b powi (adjusted b q - int p + 1)"
  using assms by (simp add: round_sig_def Let_def)

lemma round_sig_pos_bounds:
  assumes b: "1 < b" and p: "0 < p" and q: "0 < q"
  shows "of_nat b powi adjusted b q \<le> round_sig b p q"
    and "round_sig b p q \<le> of_nat b powi (adjusted b q + 1)"
proof -
  define x where "x = adjusted b q - int p + 1"
  define n where "n = round_half_even (\<bar>q\<bar> / of_nat b powi x)"
  have q0: "q \<noteq> 0" using q by simp
  have B: "(0::rat) < of_nat b" using b by simp
  have B0: "(of_nat b :: rat) \<noteq> 0" using B by simp
  have Bx: "(0::rat) < of_nat b powi x" using B by simp
  have rs: "round_sig b p q = of_int n * of_nat b powi x"
    using q by (simp add: round_sig_pos_eq n_def x_def)
  have nb: "int b ^ (p - 1) \<le> n" "n \<le> int b ^ p"
    using coeff_bounds[OF b p q0] by (simp_all add: n_def x_def)
  have lo: "(of_int (int b ^ (p - 1)) :: rat) = of_nat b powi (int p - 1)"
    using p by (simp add: power_int_def nat_diff_distrib')
  have hi: "(of_int (int b ^ p) :: rat) = of_nat b powi int p"
    by (simp add: power_int_def)
  have "(of_nat b :: rat) powi adjusted b q = of_nat b powi (int p - 1) * of_nat b powi x"
    by (rule powi_split[OF B0]) (simp add: x_def)
  also have "\<dots> = of_int (int b ^ (p - 1)) * of_nat b powi x" by (simp only: lo)
  also have "\<dots> \<le> of_int n * of_nat b powi x"
    using nb(1) Bx by (intro mult_right_mono) (simp_all only: of_int_le_iff less_imp_le)
  finally show "of_nat b powi adjusted b q \<le> round_sig b p q" by (simp only: rs)
  have "of_int n * of_nat b powi x \<le> (of_int (int b ^ p) :: rat) * of_nat b powi x"
    using nb(2) Bx by (intro mult_right_mono) (simp_all only: of_int_le_iff less_imp_le)
  also have "\<dots> = of_nat b powi int p * of_nat b powi x" by (simp only: hi)
  also have "\<dots> = of_nat b powi (adjusted b q + 1)"
    by (rule powi_split[OF B0, symmetric]) (simp add: x_def)
  finally show "round_sig b p q \<le> of_nat b powi (adjusted b q + 1)" by (simp only: rs)
qed

lemma round_sig_pos:
  assumes "1 < b" "0 < p" "0 < q"
  shows "0 < round_sig b p q"
proof -
  have "(0::rat) < of_nat b powi adjusted b q" using assms(1) by simp
  then show ?thesis using round_sig_pos_bounds(1)[OF assms] by linarith
qed

lemma round_sig_mono_pos:
  assumes b: "1 < b" and p: "0 < p" and q1: "0 < q1" and le: "q1 \<le> q2"
  shows "round_sig b p q1 \<le> round_sig b p q2"
proof -
  have q2: "0 < q2" using q1 le by simp
  have B: "(1::rat) \<le> of_nat b" using b by simp
  have B0: "(0::rat) < of_nat b" using b by simp
  have am: "adjusted b q1 \<le> adjusted b q2"
    using adjusted_mono[OF b, of q1 q2] q1 le by simp
  show ?thesis
  proof (cases "adjusted b q1 = adjusted b q2")
    case True
    define x where "x = adjusted b q2 - int p + 1"
    have Bx: "(0::rat) < of_nat b powi x" using B0 by simp
    have "q1 / of_nat b powi x \<le> q2 / of_nat b powi x"
      using le Bx by (simp add: divide_right_mono)
    then have "round_half_even (q1 / of_nat b powi x) \<le> round_half_even (q2 / of_nat b powi x)"
      by (rule round_half_even_mono)
    then have "(of_int (round_half_even (q1 / of_nat b powi x)) :: rat) * of_nat b powi x
        \<le> of_int (round_half_even (q2 / of_nat b powi x)) * of_nat b powi x"
      using Bx by (intro mult_right_mono) (simp_all only: of_int_le_iff less_imp_le)
    then show ?thesis
      using q1 q2 True by (simp add: round_sig_pos_eq x_def)
  next
    case False
    then have "adjusted b q1 + 1 \<le> adjusted b q2" using am by simp
    then have "(of_nat b :: rat) powi (adjusted b q1 + 1) \<le> of_nat b powi adjusted b q2"
      using B by (intro power_int_increasing)
    then show ?thesis
      using round_sig_pos_bounds(2)[OF b p q1] round_sig_pos_bounds(1)[OF b p q2] by linarith
  qed
qed

lemma round_sig_mono:
  assumes b: "1 < b" and p: "0 < p" and le: "q1 \<le> q2"
  shows "round_sig b p q1 \<le> round_sig b p q2"
proof -
  consider "0 < q1" | "q1 = 0" | "q1 < 0" "q2 < 0" | "q1 < 0" "q2 = 0" | "q1 < 0" "0 < q2"
    by linarith
  then show ?thesis
  proof cases
    case 1
    then show ?thesis using round_sig_mono_pos[OF b p _ le] by simp
  next
    case 2
    then show ?thesis
      using le round_sig_pos[OF b p, of q2] by (cases "q2 = 0") auto
  next
    case 3
    then have "round_sig b p (- q2) \<le> round_sig b p (- q1)"
      using le by (intro round_sig_mono_pos[OF b p]) simp_all
    then show ?thesis by (simp add: round_sig_minus)
  next
    case 4
    then show ?thesis
      using round_sig_pos[OF b p, of "- q1"] by (simp add: round_sig_minus)
  next
    case 5
    then show ?thesis
      using round_sig_pos[OF b p, of "- q1"] round_sig_pos[OF b p, of q2]
      by (simp add: round_sig_minus)
  qed
qed

lemma round_sig_eqI:
  assumes b: "1 < b"
    and lo: "of_nat b powi e \<le> \<bar>q\<bar>" and hi: "\<bar>q\<bar> < of_nat b powi (e + 1)"
    and near: "\<bar>\<bar>q\<bar> / of_nat b powi (e - int p + 1) - of_int n\<bar> < 1 / 2"
  shows "round_sig b p q = sgn q * of_int n * of_nat b powi (e - int p + 1)"
proof -
  have B: "(0::rat) < of_nat b powi e" using b by simp
  then have q0: "q \<noteq> 0" using lo by auto
  have adj: "adjusted b q = e" by (rule adjusted_unique[OF b lo hi])
  show ?thesis
    using q0 round_half_even_near[OF near] by (simp add: round_sig_def adj Let_def)
qed

lemma representableI:
  "\<bar>m\<bar> < int b ^ p \<Longrightarrow> v = of_int m * of_nat b powi k \<Longrightarrow> representable b p v"
  unfolding representable_def by blast

lemma representable_scale:
  assumes b: "1 < b" and r: "representable b p v"
  shows "representable b p (v * of_nat b powi j)"
proof -
  from r obtain m k where m: "\<bar>m\<bar> < int b ^ p" and v: "v = of_int m * of_nat b powi k"
    unfolding representable_def by blast
  have B0: "(of_nat b :: rat) \<noteq> 0" using b by simp
  have "v * of_nat b powi j = of_int m * of_nat b powi (k + j)"
    unfolding v using powi_split[OF B0, of "k + j" k j] by simp
  then show ?thesis using m by (rule representableI[rotated])
qed

lemma round_sig_fixed:
  assumes b: "1 < b" and r: "representable b p v"
  shows "round_sig b p v = v"
proof (cases "v = 0")
  case True
  then show ?thesis by simp
next
  case False
  from r obtain m k where m: "\<bar>m\<bar> < int b ^ p" and v: "v = of_int m * of_nat b powi k"
    unfolding representable_def by blast
  have B: "(1::rat) < of_nat b" using b by simp
  have B0: "(of_nat b :: rat) \<noteq> 0" using b by simp
  have Bpos: "\<And>j. (0::rat) < of_nat b powi j" using b by simp
  define x where "x = adjusted b v - int p + 1"
  have absv: "\<bar>v\<bar> = of_int \<bar>m\<bar> * of_nat b powi k"
    unfolding v using Bpos[of k] by (simp add: abs_mult)
  have "(of_int \<bar>m\<bar> :: rat) < of_int (int b ^ p)" using m by (simp only: of_int_less_iff)
  also have "\<dots> = of_nat b powi int p" by (simp add: power_int_def)
  finally have "of_int \<bar>m\<bar> * of_nat b powi k < (of_nat b :: rat) powi int p * of_nat b powi k"
    using Bpos[of k] by (intro mult_strict_right_mono)
  also have "\<dots> = of_nat b powi (int p + k)"
    by (rule powi_split[OF B0, symmetric]) simp
  finally have "of_nat b powi adjusted b v < (of_nat b :: rat) powi (int p + k)"
    using adjusted_bounds(1)[OF b False] absv by simp
  then have "adjusted b v < int p + k"
    using power_int_increasing[of "int p + k" "adjusted b v" "of_nat b :: rat"] B
    by (cases "adjusted b v < int p + k") auto
  then have xk: "x \<le> k" by (simp add: x_def)
  define d where "d = nat (k - x)"
  have kx: "k = int d + x" using xk by (simp add: d_def)
  have pk: "(of_nat b :: rat) powi k = of_nat b powi int d * of_nat b powi x"
    by (rule powi_split[OF B0 kx])
  have sc: "\<bar>v\<bar> / of_nat b powi x = of_int (\<bar>m\<bar> * int b ^ d)"
    unfolding absv pk using Bpos[of x] by (simp add: power_int_def)
  have canc: "\<bar>v\<bar> / of_nat b powi x * of_nat b powi x = \<bar>v\<bar>"
    using Bpos[of x] b by simp
  have "round_sig b p v = sgn v * of_int (round_half_even (\<bar>v\<bar> / of_nat b powi x)) * of_nat b powi x"
    using False by (simp add: round_sig_def Let_def x_def)
  also have "\<dots> = sgn v * (\<bar>v\<bar> / of_nat b powi x) * of_nat b powi x"
    unfolding sc by (simp only: round_half_even_of_int)
  also have "\<dots> = sgn v * \<bar>v\<bar>"
    by (simp only: mult.assoc canc)
  also have "\<dots> = v" by (simp add: sgn_mult_abs)
  finally show ?thesis .
qed

lemma round_sig_representable:
  assumes b: "1 < b" and p: "0 < p"
  shows "representable b p (round_sig b p q)"
proof (cases "q = 0")
  case True
  have "representable b p (of_int 0 * of_nat b powi 0)"
    using b by (intro representableI[of 0 b p _ 0]) simp_all
  then show ?thesis using True by simp
next
  case False
  define x where "x = adjusted b q - int p + 1"
  define n where "n = round_half_even (\<bar>q\<bar> / of_nat b powi x)"
  have B0: "(of_nat b :: rat) \<noteq> 0" using b by simp
  have rs: "round_sig b p q = sgn q * of_int n * of_nat b powi x"
    using False by (simp add: round_sig_def Let_def x_def n_def)
  have nb: "int b ^ (p - 1) \<le> n" "n \<le> int b ^ p"
    using coeff_bounds[OF b p False] by (simp_all add: n_def x_def)
  have n0: "0 < n"
  proof -
    have "0 < int b ^ (p - 1)" using b by simp
    then show ?thesis using nb(1) by linarith
  qed
  define s :: int where "s = (if 0 < q then 1 else - 1)"
  have sq: "sgn q = of_int s" using False by (auto simp: s_def sgn_if)
  have s1: "\<bar>s\<bar> = 1" by (simp add: s_def)
  show ?thesis
  proof (cases "n = int b ^ p")
    case True
    have "round_sig b p q = of_int s * (of_nat b powi int p * of_nat b powi x)"
      unfolding rs sq True by (simp add: power_int_def)
    also have "\<dots> = of_int s * of_nat b powi (int p + x)"
      using powi_split[OF B0, of "int p + x" "int p" x] by simp
    finally have eq: "round_sig b p q = of_int s * of_nat b powi (int p + x)" .
    have "1 < int b ^ p" using b p by simp
    then have "\<bar>s\<bar> < int b ^ p" using s1 by simp
    then show ?thesis using eq by (rule representableI)
  next
    case False
    have eq: "round_sig b p q = of_int (s * n) * of_nat b powi x"
      unfolding rs sq by simp
    have "\<bar>s * n\<bar> < int b ^ p" using s1 n0 nb(2) False by (simp add: abs_mult)
    then show ?thesis using eq by (rule representableI)
  qed
qed

lemma round_sig_error:
  assumes b: "1 < b" and p: "0 < p"
  shows "\<bar>round_sig b p q - q\<bar> \<le> \<bar>q\<bar> * of_nat b powi (1 - int p) / 2"
proof (cases "q = 0")
  case True
  then show ?thesis by simp
next
  case False
  define x where "x = adjusted b q - int p + 1"
  define n where "n = round_half_even (\<bar>q\<bar> / of_nat b powi x)"
  have B0: "(of_nat b :: rat) \<noteq> 0" using b by simp
  have Bpos: "\<And>j. (0::rat) < of_nat b powi j" using b by simp
  have rs: "round_sig b p q = sgn q * of_int n * of_nat b powi x"
    using False by (simp add: round_sig_def Let_def x_def n_def)
  have "round_sig b p q - q = sgn q * (of_int n * of_nat b powi x - \<bar>q\<bar>)"
    unfolding rs by (simp add: algebra_simps sgn_mult_abs abs_mult_sgn)
  also have "\<dots> = sgn q * ((of_int n - \<bar>q\<bar> / of_nat b powi x) * of_nat b powi x)"
    using Bpos[of x] b by (simp add: field_simps)
  finally have "\<bar>round_sig b p q - q\<bar> = \<bar>of_int n - \<bar>q\<bar> / of_nat b powi x\<bar> * of_nat b powi x"
    using False Bpos[of x] by (simp add: abs_mult abs_sgn_eq)
  also have "\<dots> \<le> 1 / 2 * of_nat b powi x"
    using round_half_even_error[of "\<bar>q\<bar> / of_nat b powi x"] Bpos[of x]
    unfolding n_def by (intro mult_right_mono) simp_all
  also have "of_nat b powi x = (of_nat b :: rat) powi adjusted b q * of_nat b powi (1 - int p)"
    by (rule powi_split[OF B0]) (simp add: x_def)
  also have "1 / 2 * (of_nat b powi adjusted b q * of_nat b powi (1 - int p))
      \<le> 1 / 2 * (\<bar>q\<bar> * (of_nat b :: rat) powi (1 - int p))"
    using adjusted_bounds(1)[OF b False] Bpos[of "1 - int p"]
    by (intro mult_left_mono mult_right_mono) simp_all
  finally show ?thesis by simp
qed

section \<open>Bytes, slices and little-endian fields\<close>

lemma int_from_bytes_little_sum:
  "int_from_bytes_little bs = (\<Sum>k<length bs. uint (bs ! k) * 256 ^ k)"
proof (induction bs)
  case Nil
  then show ?case by simp
next
  case (Cons b bs)
  have "(\<Sum>k<length (b # bs). uint ((b # bs) ! k) * 256 ^ k)
      = uint b + (\<Sum>k<length bs. uint (bs ! k) * 256 ^ Suc k)"
    unfolding length_Cons sum.lessThan_Suc_shift by simp
  also have "(\<Sum>k<length bs. uint (bs ! k) * 256 ^ Suc k)
      = 256 * (\<Sum>k<length bs. uint (bs ! k) * 256 ^ k)"
    by (simp add: sum_distrib_left mult_ac)
  finally show ?case using Cons.IH by simp
qed

lemma length_slice: "j \<le> length xs \<Longrightarrow> length (bytes_slice i j xs) = j - i"
  by (simp add: bytes_slice_def)

lemma nth_slice: "j \<le> length xs \<Longrightarrow> k < j - i \<Longrightarrow> bytes_slice i j xs ! k = xs ! (i + k)"
  by (simp add: bytes_slice_def)

lemma slice_field:
  assumes "j \<le> length xs"
  shows "int_from_bytes_little (bytes_slice i j xs) = (\<Sum>k<j - i. uint (xs ! (i + k)) * 256 ^ k)"
  using assms by (simp add: int_from_bytes_little_sum length_slice nth_slice)

lemma int_from_bytes_little_bounds:
  "0 \<le> int_from_bytes_little bs" "int_from_bytes_little bs < 256 ^ length bs"
proof (induction bs)
  case Nil
  { case 1 show ?case by simp }
  { case 2 show ?case by simp }
next
  case (Cons b bs)
  { case 1 show ?case using Cons.IH(1) by simp }
  { case 2
    have "uint b < 256" using uint_bounded[of b] by simp
    then show ?case using Cons.IH(2) by simp }
qed

lemma slice_eq_map_nth:
  assumes "j \<le> length xs"
  shows "bytes_slice i j xs = map ((!) xs) [i..<j]"
  using assms by (simp add: list_eq_iff_nth_eq length_slice nth_slice)

lemma sqrt_price_to_price_Inr: "\<exists>p. sqrt_price_to_price s = Inr p"
  by (simp add: sqrt_price_to_price_def and_then_def dec_div_def Decimal_def Let_def)

lemma signed_field:
  assumes "i + 4 \<le> length xs"
  shows "int_from_bytes_little_signed (bytes_slice i (i + 4) xs) =
           (let u = (\<Sum>k<4. uint (xs ! (i + k)) * 256 ^ k)
            in if u < 2 ^ 31 then u else u - 2 ^ 32)"
proof -
  have len: "length (bytes_slice i (i + 4) xs) = 4" using assms by (simp add: length_slice)
  then have ne: "bytes_slice i (i + 4) xs \<noteq> []" by auto
  show ?thesis
    using slice_field[OF assms, of i] ne
    by (simp add: int_from_bytes_little_signed_def len Let_def not_less)
qed

lemma sum8: "(\<Sum>k<(8::nat). f k) = f 0 + f 1 + f 2 + f 3 + f 4 + f 5 + f 6 + (f 7 :: int)"
  by (simp add: eval_nat_numeral)

lemma sum2: "(\<Sum>k<(2::nat). f k) = f 0 + (f 1 :: int)"
  by (simp add: eval_nat_numeral)

lemma sum4: "(\<Sum>k<(4::nat). f k) = f 0 + f 1 + f 2 + (f 3 :: int)"
  by (simp add: eval_nat_numeral)

lemma sum16:
  "(\<Sum>k<(16::nat). f k) =
     f 0 + f 1 + f 2 + f 3 + f 4 + f 5 + f 6 + f 7 + f 8 + f 9 + f 10 + f 11 + f 12 + f 13
       + f 14 + (f 15 :: int)"
  by (simp add: eval_nat_numeral)

lemma float_truediv_error:
  assumes "0 \<le> a" "0 < b"
  shows "\<bar>float_truediv a b - of_int a / of_int b\<bar> \<le> of_int a / of_int b / 2 ^ 53"
proof -
  have q: "\<bar>of_int a / of_int b :: rat\<bar> = of_int a / of_int b" using assms by simp
  have "\<bar>float_truediv a b - of_int a / of_int b\<bar>
      \<le> \<bar>of_int a / of_int b\<bar> * of_nat 2 powi (1 - int 53) / 2"
    unfolding float_truediv_def by (rule round_sig_error) simp_all
  also have "\<dots> = of_int a / of_int b / 2 ^ 53"
    unfolding q by (simp add: power_int_def power_one_over)
  finally show ?thesis .
qed

section \<open>The pool account decoder\<close>

text \<open>
  C1. For a fetched account whose data is exactly 653 bytes, \<open>decode_whirlpool\<close> returns
  a record whose integer fields are the little-endian values at the fixed offsets
  (square-root price, unsigned, bytes 65-81; tick index, two's complement, bytes 81-85;
  liquidity, unsigned, bytes 85-101; tick spacing, unsigned, bytes 101-103) and whose five
  account identifiers are the keys made of bytes 104-136, 136-168, 168-200, 200-232 and
  232-264. For data of any other length it fails with the error "Not a Whirlpool account".
\<close>

theorem decode_whirlpool_layout:
  assumes "client pool_pubkey = Response (Some acc)"
  shows "(length (data acc) = 653 \<longrightarrow>
           (\<exists>info. decode_whirlpool client pool_pubkey = Inr info
              \<and> sqrt_price_x64 info = (\<Sum>k<16. uint (data acc ! (65 + k)) * 256 ^ k)
              \<and> tick_current_index info =
                  (let u = (\<Sum>k<4. uint (data acc ! (81 + k)) * 256 ^ k)
                   in if u < 2 ^ 31 then u else u - 2 ^ 32)
              \<and> liquidity_raw info = (\<Sum>k<16. uint (data acc ! (85 + k)) * 256 ^ k)
              \<and> tick_spacing info = (\<Sum>k<2. uint (data acc ! (101 + k)) * 256 ^ k)
              \<and> vault_a info = str_pubkey (Pubkey (map ((!) (data acc)) [104..<136]))
              \<and> vault_b info = str_pubkey (Pubkey (map ((!) (data acc)) [136..<168]))
              \<and> tick_array_0 info = str_pubkey (Pubkey (map ((!) (data acc)) [168..<200]))
              \<and> tick_array_1 info = str_pubkey (Pubkey (map ((!) (data acc)) [200..<232]))
              \<and> tick_array_2 info = str_pubkey (Pubkey (map ((!) (data acc)) [232..<264]))))
       \<and> (length (data acc) \<noteq> 653 \<longrightarrow>
            decode_whirlpool client pool_pubkey = Inl (RuntimeError ''Not a Whirlpool account''))"
proof (intro conjI impI)
  assume len: "length (data acc) = 653"
  obtain p where p: "sqrt_price_to_price (int_from_bytes_little (bytes_slice 65 81 (data acc))) = Inr p"
    using sqrt_price_to_price_Inr by blast
  have pk: "\<And>i j. j \<le> 653 \<Longrightarrow> j - i = 32 \<Longrightarrow>
      Pubkey_from_bytes (bytes_slice i j (data acc)) = Inr (Pubkey (map ((!) (data acc)) [i..<j]))"
    using len by (simp add: Pubkey_from_bytes_def length_slice slice_eq_map_nth)
  have tick: "int_from_bytes_little_signed (bytes_slice 81 85 (data acc)) =
      (let u = (\<Sum>k<4. uint (data acc ! (81 + k)) * 256 ^ k)
       in if u < 2 ^ 31 then u else u - 2 ^ 32)"
    using signed_field[of 81 "data acc"] len by simp
  show "\<exists>info. decode_whirlpool client pool_pubkey = Inr info
      \<and> sqrt_price_x64 info = (\<Sum>k<16. uint (data acc ! (65 + k)) * 256 ^ k)
      \<and> tick_current_index info =
          (let u = (\<Sum>k<4. uint (data acc ! (81 + k)) * 256 ^ k)
           in if u < 2 ^ 31 then u else u - 2 ^ 32)
      \<and> liquidity_raw info = (\<Sum>k<16. uint (data acc ! (85 + k)) * 256 ^ k)
      \<and> tick_spacing info = (\<Sum>k<2. uint (data acc ! (101 + k)) * 256 ^ k)
      \<and> vault_a info = str_pubkey (Pubkey (map ((!) (data acc)) [104..<136]))
      \<and> vault_b info = str_pubkey (Pubkey (map ((!) (data acc)) [136..<168]))
      \<and> tick_array_0 info = str_pubkey (Pubkey (map ((!) (data acc)) [168..<200]))
      \<and> tick_array_1 info = str_pubkey (Pubkey (map ((!) (data acc)) [200..<232]))
      \<and> tick_array_2 info = str_pubkey (Pubkey (map ((!) (data acc)) [232..<264]))"
    using assms len p
    by (simp add: decode_whirlpool_def Let_def and_then_def pk tick slice_field)
next
  assume "length (data acc) \<noteq> 653"
  then show "decode_whirlpool client pool_pubkey = Inl (RuntimeError ''Not a Whirlpool account'')"
    using assms by (simp add: decode_whirlpool_def Let_def)
qed

theorem decode_whirlpool_layout_witness:
  "(\<exists>info. decode_whirlpool (token_client sample_pool) pool_address = Inr info
      \<and> sqrt_price_x64 info = 513 \<and> tick_current_index info = - 1
      \<and> liquidity_raw info = 3 \<and> tick_spacing info = 64)
   \<and> decode_whirlpool (token_client (replicate 64 0 @ [1, 2, 0])) pool_address =
       Inl (RuntimeError ''Not a Whirlpool account'')"
proof
  have len: "length sample_pool = 653" by (simp add: sample_pool_def)
  have c: "token_client sample_pool pool_address =
      Response (Some \<lparr>lamports = 2039280, data = sample_pool\<rparr>)"
    by (simp add: token_client_def)
  have s1: "(\<Sum>k<16. uint (sample_pool ! (65 + k)) * 256 ^ k) = 513"
    by (simp add: sum16 sample_pool_def nth_append)
  have s2: "(\<Sum>k<4. uint (sample_pool ! (81 + k)) * 256 ^ k) = 4294967295"
    by (simp add: sum4 sample_pool_def nth_append)
  have s3: "(\<Sum>k<16. uint (sample_pool ! (85 + k)) * 256 ^ k) = 3"
    by (simp add: sum16 sample_pool_def nth_append)
  have s4: "(\<Sum>k<2. uint (sample_pool ! (101 + k)) * 256 ^ k) = 64"
    by (simp add: sum2 sample_pool_def nth_append)
  show "\<exists>info. decode_whirlpool (token_client sample_pool) pool_address = Inr info
      \<and> sqrt_price_x64 info = 513 \<and> tick_current_index info = - 1
      \<and> liquidity_raw info = 3 \<and> tick_spacing info = 64"
    using decode_whirlpool_layout[of "token_client sample_pool" pool_address
            "\<lparr>lamports = 2039280, data = sample_pool\<rparr>"] c len
    by (auto simp: s1 s2 s3 s4)
next
  have c: "token_client (replicate 64 0 @ [1, 2, 0]) pool_address =
      Response (Some \<lparr>lamports = 2039280, data = replicate 64 0 @ [1, 2, 0]\<rparr>)"
    by (simp add: token_client_def)
  show "decode_whirlpool (token_client (replicate 64 0 @ [1, 2, 0])) pool_address =
       Inl (RuntimeError ''Not a Whirlpool account'')"
    using decode_whirlpool_layout[of "token_client (replicate 64 0 @ [1, 2, 0])" pool_address
            "\<lparr>lamports = 2039280, data = replicate 64 0 @ [1, 2, 0]\<rparr>"] c
    by simp
qed

lemma eval_float_513:
  "float_truediv 513 1000000 = 1182897463726625 / 2305843009213693952"
  using round_sig_eqI[of 2 "- 11" "513 / 1000000" 53 4731589854906500]
  by (simp add: float_truediv_def power_int_def power_one_over)

section \<open>The vault balance\<close>

text \<open>
  C9, as amended. In token-holding mode, for account data of at least 72 bytes the raw
  amount is the little-endian unsigned value of bytes 64-72, and the display amount is the
  raw amount divided by \<open>10\<^sup>6\<close> and rounded to a binary64 float: a number of 53 binary
  digits within a relative \<open>2\<^sup>-\<^sup>5\<^sup>3\<close> of the quotient. For shorter data the balance is zero,
  and nothing is raised.
\<close>

theorem get_vault_balance_token_account:
  assumes "client vault_address = Response (Some acc)"
  shows "(72 \<le> length (data acc) \<longrightarrow>
            (let amount = (\<Sum>k<8. uint (data acc ! (64 + k)) * 256 ^ k)
             in get_vault_balance client vault_address True =
                  \<lparr>raw = amount, display = float_truediv amount 1000000, token = ''USDC''\<rparr>
                \<and> 0 \<le> amount \<and> amount < 2 ^ 64
                \<and> representable 2 53 (float_truediv amount 1000000)
                \<and> \<bar>float_truediv amount 1000000 - of_int amount / 10 ^ 6\<bar>
                     \<le> of_int amount / 10 ^ 6 / 2 ^ 53))
       \<and> (length (data acc) < 72 \<longrightarrow>
            get_vault_balance client vault_address True =
              \<lparr>raw = 0, display = 0, token = ''USDC''\<rparr>)"
proof (intro conjI impI)
  assume len: "72 \<le> length (data acc)"
  define amount where "amount = (\<Sum>k<8. uint (data acc ! (64 + k)) * 256 ^ k)"
  have field: "int_from_bytes_little (bytes_slice 64 72 (data acc)) = amount"
    using slice_field[OF len, of 64] by (simp add: amount_def)
  have bounds: "0 \<le> amount" "amount < 2 ^ 64"
    using int_from_bytes_little_bounds[of "bytes_slice 64 72 (data acc)"] len
    by (simp_all add: field length_slice)
  have err: "\<bar>float_truediv amount 1000000 - of_int amount / 10 ^ 6\<bar>
      \<le> of_int amount / 10 ^ 6 / 2 ^ 53"
    using float_truediv_error[OF bounds(1), of 1000000] by simp
  have rp: "representable 2 53 (float_truediv amount 1000000)"
    unfolding float_truediv_def by (rule round_sig_representable) simp_all
  have "get_vault_balance client vault_address True =
      \<lparr>raw = amount, display = float_truediv amount 1000000, token = ''USDC''\<rparr>"
    using assms len by (simp add: get_vault_balance_def field Let_def)
  then show "let amount = (\<Sum>k<8. uint (data acc ! (64 + k)) * 256 ^ k)
       in get_vault_balance client vault_address True =
            \<lparr>raw = amount, display = float_truediv amount 1000000, token = ''USDC''\<rparr>
          \<and> 0 \<le> amount \<and> amount < 2 ^ 64
          \<and> representable 2 53 (float_truediv amount 1000000)
          \<and> \<bar>float_truediv amount 1000000 - of_int amount / 10 ^ 6\<bar>
               \<le> of_int amount / 10 ^ 6 / 2 ^ 53"
    using bounds err rp unfolding amount_def Let_def by simp
next
  assume "length (data acc) < 72"
  then show "get_vault_balance client vault_address True =
      \<lparr>raw = 0, display = 0, token = ''USDC''\<rparr>"
    using assms by (simp add: get_vault_balance_def)
qed

theorem get_vault_balance_token_account_witness:
  "get_vault_balance (token_client (replicate 64 0 @ [1, 2, 0, 0, 0, 0, 0, 0])) vault_b_address True =
     \<lparr>raw = 513, display = float_truediv 513 1000000, token = ''USDC''\<rparr>
   \<and> get_vault_balance (token_client (replicate 64 0 @ [1, 2, 0])) vault_b_address True =
     \<lparr>raw = 0, display = 0, token = ''USDC''\<rparr>"
  using get_vault_balance_token_account[of "token_client (replicate 64 0 @ [1, 2, 0, 0, 0, 0, 0, 0])" vault_b_address
          "\<lparr>lamports = 2039280, data = replicate 64 0 @ [1, 2, 0, 0, 0, 0, 0, 0]\<rparr>"]
        get_vault_balance_token_account[of "token_client (replicate 64 0 @ [1, 2, 0])" vault_b_address
          "\<lparr>lamports = 2039280, data = replicate 64 0 @ [1, 2, 0]\<rparr>"]
  by (simp add: token_client_def sum8 nth_append)

text \<open>
  C9 as stated fails in its display amount: for the raw amount 513 the float is
  \<open>1182897463726625 / 2\<^sup>6\<^sup>1\<close>, which is not \<open>513 / 10\<^sup>6\<close>.
\<close>

theorem get_vault_balance_display_inexact:
  "get_vault_balance (token_client (replicate 64 0 @ [1, 2, 0, 0, 0, 0, 0, 0])) vault_b_address True
     = \<lparr>raw = 513, display = 1182897463726625 / 2305843009213693952, token = ''USDC''\<rparr>
   \<and> (1182897463726625 / 2305843009213693952 :: rat) \<noteq> 513 / 10 ^ 6"
  by (simp add: get_vault_balance_def token_client_def bytes_slice_def Let_def eval_float_513)

text \<open>
  C10, as amended. \<open>get_vault_balance\<close> always returns a balance labelled with the
  requested token and raises nothing. The balance is zero when the account is missing, when
  the fetch raises, and in token-holding mode when the data is shorter than 72 bytes. For
  an account that is found it is the decoded balance: in native mode the lamports of the
  account and their float quotient by \<open>10\<^sup>9\<close>, in token-holding mode with at least 72 bytes
  the little-endian value of bytes 64-72 and its float quotient by \<open>10\<^sup>6\<close>.
\<close>

theorem get_vault_balance_total:
  "token (get_vault_balance client vault_address is_usdc) = (if is_usdc then ''USDC'' else ''SOL'')
   \<and> ((client vault_address = Response None
        \<or> (\<exists>e. client vault_address = Raises e)
        \<or> (is_usdc \<and> (\<exists>acc. client vault_address = Response (Some acc)
                              \<and> length (data acc) < 72)))
       \<longrightarrow> get_vault_balance client vault_address is_usdc =
             \<lparr>raw = 0, display = 0, token = (if is_usdc then ''USDC'' else ''SOL'')\<rparr>)
   \<and> (client vault_address = Response (Some acc) \<and> \<not> is_usdc
       \<longrightarrow> get_vault_balance client vault_address is_usdc =
             \<lparr>raw = lamports acc, display = float_truediv (lamports acc) 1000000000,
              token = ''SOL''\<rparr>)
   \<and> (client vault_address = Response (Some acc) \<and> is_usdc \<and> 72 \<le> length (data acc)
       \<longrightarrow> get_vault_balance client vault_address is_usdc =
             \<lparr>raw = (\<Sum>k<8. uint (data acc ! (64 + k)) * 256 ^ k),
              display = float_truediv (\<Sum>k<8. uint (data acc ! (64 + k)) * 256 ^ k) 1000000,
              token = ''USDC''\<rparr>)"
  by (auto simp: get_vault_balance_def Let_def slice_field
      split: rpc_response.splits option.splits)

theorem get_vault_balance_total_witness:
  "get_vault_balance failing_client vault_a_address False =
     \<lparr>raw = 0, display = 0, token = ''SOL''\<rparr>
   \<and> get_vault_balance (token_client []) vault_a_address False =
     \<lparr>raw = 2039280, display = float_truediv 2039280 1000000000, token = ''SOL''\<rparr>
   \<and> get_vault_balance (token_client (replicate 64 0 @ [7, 0, 0, 0, 0, 0, 0, 0]))
       vault_b_address True =
     \<lparr>raw = 7, display = float_truediv 7 1000000, token = ''USDC''\<rparr>"
  using get_vault_balance_total[where client = failing_client
        and vault_address = vault_a_address and is_usdc = False]
    get_vault_balance_total[where client = "token_client []"
        and vault_address = vault_a_address and is_usdc = False
        and acc = "\<lparr>lamports = 2039280, data = []\<rparr>"]
    get_vault_balance_total[where client = "token_client (replicate 64 0 @ [7, 0, 0, 0, 0, 0, 0, 0])"
        and vault_address = vault_b_address and is_usdc = True
        and acc = "\<lparr>lamports = 2039280, data = replicate 64 0 @ [7, 0, 0, 0, 0, 0, 0, 0]\<rparr>"]
  by (simp add: failing_client_def token_client_def sum8 nth_append)

text \<open>
  C10 as stated fails: an account that is found yields its balance, here 2039280 lamports
  in native mode, not zero.
\<close>

theorem get_vault_balance_nonzero:
  "raw (get_vault_balance (token_client []) vault_a_address False) = 2039280"
  by (simp add: get_vault_balance_def token_client_def Let_def)

section \<open>The price of a square-root price\<close>

lemma round10_eqI:
  assumes lo: "10 powi e \<le> \<bar>q\<bar>" and hi: "\<bar>q\<bar> < 10 powi (e + 1)"
    and x: "x = e - int p + 1"
    and near: "\<bar>\<bar>q\<bar> / 10 powi x - of_int n\<bar> < 1 / 2"
  shows "round_sig 10 p q = sgn q * of_int n * 10 powi x"
  using round_sig_eqI[of 10 e q p n] assms by simp

lemma sqrt_price_to_price_eq:
  "sqrt_price_to_price s = Inr (1000 * dec_pow2 (round_sig 10 prec (of_int s / 2 ^ 64)))"
proof -
  define v where "v = dec_pow2 (round_sig 10 prec (of_int s / 2 ^ 64))"
  have rep: "representable 10 prec v"
    unfolding v_def dec_pow2_def by (rule round_sig_representable) (simp_all add: prec_def)
  have "representable 10 prec (v * of_nat 10 powi 9)"
    by (rule representable_scale[OF _ rep]) simp
  then have m: "dec_mul v (Decimal (10 ^ 9)) = v * 10 ^ 9"
    unfolding dec_mul_def Decimal_def using round_sig_fixed[of 10 prec "v * 10 ^ 9"]
    by (simp add: power_int_def)
  have "representable 10 prec (v * of_nat 10 powi 3)"
    by (rule representable_scale[OF _ rep]) simp
  then have d: "dec_div (v * 10 ^ 9) (Decimal (10 ^ 6)) = Inr (1000 * v)"
    unfolding dec_div_def Decimal_def using round_sig_fixed[of 10 prec "v * 1000"]
    by (simp add: power_int_def mult.commute)
  have q: "dec_div (Decimal s) (Decimal (2 ^ 64)) = Inr (round_sig 10 prec (of_int s / 2 ^ 64))"
    by (simp add: dec_div_def Decimal_def)
  show ?thesis
    unfolding sqrt_price_to_price_def q and_then_def
    by (simp only: sum.case Let_def v_def[symmetric] m d)
qed

lemma eval_div_1e20:
  "round_sig 10 prec (of_int 100000000000000000000 / 2 ^ 64) = 542101086242752217 / 10 ^ 17"
  using round10_eqI[of 0 "of_int 100000000000000000000 / 2 ^ 64" "- 17" 18 542101086242752217]
  by (simp add: prec_def power_int_def power_one_over)

lemma eval_div_1e20_succ:
  "round_sig 10 prec (of_int 100000000000000000001 / 2 ^ 64) = 542101086242752217 / 10 ^ 17"
  using round10_eqI[of 0 "of_int 100000000000000000001 / 2 ^ 64" "- 17" 18 542101086242752217]
  by (simp add: prec_def power_int_def power_one_over)

lemma eval_div_1:
  "round_sig 10 prec (of_int 1 / 2 ^ 64) = 542101086242752217 / 10 ^ 37"
  using round10_eqI[of "- 20" "of_int 1 / 2 ^ 64" "- 37" 18 542101086242752217]
  by (simp add: prec_def power_int_def power_one_over)

lemma eval_pow2_a:
  "dec_pow2 (542101086242752217 / 10 ^ 17) = 293873587705571877 / 10 ^ 16"
proof -
  have 1: "round_sig 10 (prec + 3) ((542101086242752217 / 10 ^ 17) * (542101086242752217 / 10 ^ 17))
      = 293873587705571876988 / 10 ^ 19"
    using round10_eqI[of 1 "(542101086242752217 / 10 ^ 17) * (542101086242752217 / 10 ^ 17)"
        "- 19" 21 293873587705571876988]
    by (simp add: prec_def power_int_def power_one_over)
  have 2: "round_sig 10 prec (293873587705571876988 / 10 ^ 19) = 293873587705571877 / 10 ^ 16"
    using round10_eqI[of 1 "293873587705571876988 / 10 ^ 19" "- 16" 18 293873587705571877]
    by (simp add: prec_def power_int_def power_one_over)
  show ?thesis unfolding dec_pow2_def 1 2 ..
qed

lemma eval_pow2_b:
  "dec_pow2 (542101086242752217 / 10 ^ 37) = 293873587705571877 / 10 ^ 56"
proof -
  have 1: "round_sig 10 (prec + 3) ((542101086242752217 / 10 ^ 37) * (542101086242752217 / 10 ^ 37))
      = 293873587705571876988 / 10 ^ 59"
    using round10_eqI[of "- 39" "(542101086242752217 / 10 ^ 37) * (542101086242752217 / 10 ^ 37)"
        "- 59" 21 293873587705571876988]
    by (simp add: prec_def power_int_def power_one_over)
  have 2: "round_sig 10 prec (293873587705571876988 / 10 ^ 59) = 293873587705571877 / 10 ^ 56"
    using round10_eqI[of "- 39" "293873587705571876988 / 10 ^ 59" "- 56" 18 293873587705571877]
    by (simp add: prec_def power_int_def power_one_over)
  show ?thesis unfolding dec_pow2_def 1 2 ..
qed

lemma dec_pow2_mono:
  assumes "0 \<le> x" "x \<le> y"
  shows "dec_pow2 x \<le> dec_pow2 y"
proof -
  have "x * x \<le> y * y" using assms by (intro mult_mono) simp_all
  then show ?thesis
    unfolding dec_pow2_def by (intro round_sig_mono) (simp_all add: prec_def)
qed

lemma round_sig_nonneg:
  assumes "1 < b" "0 < p" "0 \<le> q"
  shows "0 \<le> round_sig b p q"
  using round_sig_mono[OF assms(1,2), of 0 q] assms(3) by simp

lemma round_sig_rel:
  assumes b: "1 < b" and p: "0 < p" and q: "0 \<le> q"
  shows "q * (1 - of_nat b powi (1 - int p) / 2) \<le> round_sig b p q"
    and "round_sig b p q \<le> q * (1 + of_nat b powi (1 - int p) / 2)"
proof -
  define E :: rat where "E = of_nat b powi (1 - int p) / 2"
  have "\<bar>round_sig b p q - q\<bar> \<le> q * E"
    using round_sig_error[OF b p, of q] q by (simp add: E_def)
  then have "q - q * E \<le> round_sig b p q" "round_sig b p q \<le> q + q * E"
    by (simp_all add: abs_le_iff)
  then show "q * (1 - of_nat b powi (1 - int p) / 2) \<le> round_sig b p q"
    and "round_sig b p q \<le> q * (1 + of_nat b powi (1 - int p) / 2)"
    unfolding E_def[symmetric] by (simp_all add: algebra_simps)
qed

lemma round18_rel:
  assumes "0 \<le> q"
  shows "q * (1 - 5 / 10 ^ 18) \<le> round_sig 10 prec q"
    and "round_sig 10 prec q \<le> q * (1 + 5 / 10 ^ 18)"
  using round_sig_rel[of 10 prec q] assms
  by (simp_all add: prec_def power_int_def power_one_over)

lemma round21_rel:
  assumes "0 \<le> q"
  shows "q * (1 - 5 / 10 ^ 21) \<le> round_sig 10 (prec + 3) q"
    and "round_sig 10 (prec + 3) q \<le> q * (1 + 5 / 10 ^ 21)"
  using round_sig_rel[of 10 "prec + 3" q] assms
  by (simp_all add: prec_def power_int_def power_one_over)

lemma dec_pow2_rel:
  assumes a: "0 \<le> a" and lo: "a * (1 - 5 / 10 ^ 18) \<le> r" and hi: "r \<le> a * (1 + 5 / 10 ^ 18)"
  shows "a * a * (1 - 2 / 10 ^ 17) \<le> dec_pow2 r"
    and "dec_pow2 r \<le> a * a * (1 + 2 / 10 ^ 17)"
proof -
  define l18 :: rat where "l18 = 1 - 5 / 10 ^ 18"
  define h18 :: rat where "h18 = 1 + 5 / 10 ^ 18"
  define l21 :: rat where "l21 = 1 - 5 / 10 ^ 21"
  define h21 :: rat where "h21 = 1 + 5 / 10 ^ 21"
  have pos: "0 < l18" "0 < h18" "0 < l21" "0 < h21"
    by (simp_all add: l18_def h18_def l21_def h21_def)
  have al: "0 \<le> a * l18" using a pos by simp
  have r0: "0 \<le> r" using al lo by (simp add: l18_def)
  have aa: "0 \<le> a * a" using a by simp
  define t where "t = round_sig 10 (prec + 3) (r * r)"
  have rr0: "0 \<le> r * r" using r0 by simp
  have sq_lo: "(a * l18) * (a * l18) \<le> r * r"
    using al lo by (intro mult_mono) (simp_all add: l18_def)
  have sq_hi: "r * r \<le> (a * h18) * (a * h18)"
    using r0 hi by (intro mult_mono) (simp_all add: h18_def)
  have t_lo: "(a * l18) * (a * l18) * l21 \<le> t"
  proof -
    have "(a * l18) * (a * l18) * l21 \<le> r * r * l21"
      using sq_lo pos by (intro mult_right_mono) simp_all
    also have "\<dots> \<le> t" unfolding t_def l21_def by (rule round21_rel(1)[OF rr0])
    finally show ?thesis .
  qed
  have t_hi: "t \<le> (a * h18) * (a * h18) * h21"
  proof -
    have "t \<le> r * r * h21" unfolding t_def h21_def by (rule round21_rel(2)[OF rr0])
    also have "\<dots> \<le> (a * h18) * (a * h18) * h21"
      using sq_hi pos by (intro mult_right_mono) simp_all
    finally show ?thesis .
  qed
  have t0: "0 \<le> t" unfolding t_def using rr0 by (intro round_sig_nonneg) (simp_all add: prec_def)
  have u: "dec_pow2 r = round_sig 10 prec t" by (simp add: dec_pow2_def t_def)
  have cl: "1 - 2 / 10 ^ 17 \<le> l18 * l18 * l21 * l18"
    by (simp add: l18_def l21_def)
  have ch: "h18 * h18 * h21 * h18 \<le> 1 + 2 / 10 ^ 17"
    by (simp add: h18_def h21_def)
  have "a * a * (1 - 2 / 10 ^ 17) \<le> a * a * (l18 * l18 * l21 * l18)"
    using aa cl by (rule mult_left_mono[rotated])
  also have "\<dots> = (a * l18) * (a * l18) * l21 * l18" by (simp add: algebra_simps)
  also have "\<dots> \<le> t * l18" using t_lo pos by (intro mult_right_mono) simp_all
  also have "\<dots> \<le> dec_pow2 r" unfolding u l18_def by (rule round18_rel(1)[OF t0])
  finally show "a * a * (1 - 2 / 10 ^ 17) \<le> dec_pow2 r" .
  have "dec_pow2 r \<le> t * h18" unfolding u h18_def by (rule round18_rel(2)[OF t0])
  also have "\<dots> \<le> (a * h18) * (a * h18) * h21 * h18"
    using t_hi pos by (intro mult_right_mono) simp_all
  also have "\<dots> = a * a * (h18 * h18 * h21 * h18)" by (simp add: algebra_simps)
  also have "\<dots> \<le> a * a * (1 + 2 / 10 ^ 17)"
    using aa ch by (rule mult_left_mono[rotated])
  finally show "dec_pow2 r \<le> a * a * (1 + 2 / 10 ^ 17)" .
qed

lemma eval_div_max:
  "round_sig 10 prec (of_int 340282366920938463463374607431768211455 / 2 ^ 64) = 184467440737095516 * 10 ^ 2"
  using round10_eqI[of 19 "of_int 340282366920938463463374607431768211455 / 2 ^ 64" 2 18 184467440737095516]
  by (simp add: prec_def power_int_def power_one_over)

lemma eval_pow2_max:
  "dec_pow2 (184467440737095516 * 10 ^ 2) = 340282366920938463 * 10 ^ 21"
proof -
  have 1: "round_sig 10 (prec + 3) ((184467440737095516 * 10 ^ 2) * (184467440737095516 * 10 ^ 2))
      = 340282366920938462873 * 10 ^ 18"
    using round10_eqI[of 38 "(184467440737095516 * 10 ^ 2) * (184467440737095516 * 10 ^ 2)"
        18 21 340282366920938462873]
    by (simp add: prec_def power_int_def power_one_over)
  have 2: "round_sig 10 prec (340282366920938462873 * 10 ^ 18) = 340282366920938463 * 10 ^ 21"
    using round10_eqI[of 38 "340282366920938462873 * 10 ^ 18" 21 18 340282366920938463]
    by (simp add: prec_def power_int_def power_one_over)
  show ?thesis unfolding dec_pow2_def 1 2 ..
qed

lemma price_value_mono:
  assumes "0 \<le> s1" "s1 \<le> s2"
  shows "dec_pow2 (round_sig 10 prec (of_int s1 / 2 ^ 64))
       \<le> dec_pow2 (round_sig 10 prec (of_int s2 / 2 ^ 64))"
proof -
  have q: "(0::rat) \<le> of_int s1 / 2 ^ 64" "(of_int s1 :: rat) / 2 ^ 64 \<le> of_int s2 / 2 ^ 64"
    using assms by (simp_all add: divide_right_mono)
  show ?thesis
    by (intro dec_pow2_mono round_sig_nonneg round_sig_mono q) (simp_all add: prec_def)
qed

lemma sqrt_price_to_price_range:
  assumes "0 \<le> s" "s < 2 ^ 128"
  shows "\<exists>p. sqrt_price_to_price s = Inr p
           \<and> (p = 0 \<or> (MIN_PRICE \<le> p \<and> p \<le> MAX_PRICE))"
proof (cases "s = 0")
  case True
  then show ?thesis by (simp add: sqrt_price_to_price_eq dec_pow2_def)
next
  case False
  then have s1: "1 \<le> s" and s2: "s \<le> 340282366920938463463374607431768211455" using assms by simp_all
  have lo: "dec_pow2 (round_sig 10 prec (of_int 1 / 2 ^ 64))
      \<le> dec_pow2 (round_sig 10 prec (of_int s / 2 ^ 64))"
    using s1 by (intro price_value_mono) simp_all
  have hi: "dec_pow2 (round_sig 10 prec (of_int s / 2 ^ 64))
      \<le> dec_pow2 (round_sig 10 prec (of_int 340282366920938463463374607431768211455 / 2 ^ 64))"
    using s1 s2 by (intro price_value_mono) simp_all
  have "MIN_PRICE \<le> 1000 * dec_pow2 (round_sig 10 prec (of_int s / 2 ^ 64))"
    using lo unfolding eval_div_1 eval_pow2_b by (simp add: MIN_PRICE_def)
  moreover have "1000 * dec_pow2 (round_sig 10 prec (of_int s / 2 ^ 64)) \<le> MAX_PRICE"
    using hi unfolding eval_div_max eval_pow2_max by (simp add: MAX_PRICE_def)
  ultimately show ?thesis by (simp add: sqrt_price_to_price_eq)
qed

text \<open>
  C7, as amended. For a square-root price \<open>s \<ge> 0\<close> the price is computed with 18
  significant digits, rounding the quotient \<open>s / 2\<^sup>6\<^sup>4\<close> and its square, so it is not the
  exact value of \<open>(s / 2\<^sup>6\<^sup>4)\<^sup>2 * 10\<^sup>9 / 10\<^sup>6\<close> but lies within a relative error of
  \<open>2 * 10\<^sup>-\<^sup>1\<^sup>7\<close> of it; the function returns for every such \<open>s\<close>.
\<close>

theorem sqrt_price_to_price_error:
  assumes "0 \<le> s"
  shows "\<exists>p. sqrt_price_to_price s = Inr p
           \<and> \<bar>p - (of_int s / 2 ^ 64)\<^sup>2 * (10 ^ 9 / 10 ^ 6)\<bar>
               \<le> (of_int s / 2 ^ 64)\<^sup>2 * (10 ^ 9 / 10 ^ 6) * (2 / 10 ^ 17)"
proof -
  define a :: rat where "a = of_int s / 2 ^ 64"
  define u where "u = dec_pow2 (round_sig 10 prec a)"
  have a0: "0 \<le> a" using assms by (simp add: a_def)
  have b: "a * a * (1 - 2 / 10 ^ 17) \<le> u" "u \<le> a * a * (1 + 2 / 10 ^ 17)"
    unfolding u_def by (rule dec_pow2_rel[OF a0 round18_rel[OF a0]])+
  define w where "w = a * a"
  have bw: "w * (1 - 2 / 10 ^ 17) \<le> u" "u \<le> w * (1 + 2 / 10 ^ 17)"
    using b by (simp_all add: w_def)
  have "1000 * u - w * 1000 \<le> w * 1000 * (2 / 10 ^ 17)"
    and "- (1000 * u - w * 1000) \<le> w * 1000 * (2 / 10 ^ 17)"
    using bw by simp_all
  then have "\<bar>1000 * u - w * 1000\<bar> \<le> w * 1000 * (2 / 10 ^ 17)"
    by (simp only: abs_le_iff)
  then have "\<bar>1000 * u - a\<^sup>2 * (10 ^ 9 / 10 ^ 6)\<bar> \<le> a\<^sup>2 * (10 ^ 9 / 10 ^ 6) * (2 / 10 ^ 17)"
    by (simp add: w_def power2_eq_square)
  then show ?thesis
    unfolding sqrt_price_to_price_eq a_def[symmetric] u_def[symmetric] by simp
qed

theorem sqrt_price_to_price_error_witness:
  "(0::int) \<le> 2 ^ 64
   \<and> (\<exists>p. sqrt_price_to_price (2 ^ 64) = Inr p \<and> \<bar>p - 1000\<bar> \<le> 1 / 50000000000000)"
  using sqrt_price_to_price_error[of "2 ^ 64"] by simp

text \<open>
  C7 as stated fails at \<open>s = 1\<close>: the price returned is \<open>2.93873587705571877E-36\<close>, which
  is not \<open>1000 / 2\<^sup>1\<^sup>2\<^sup>8\<close>.
\<close>

theorem sqrt_price_to_price_inexact:
  "sqrt_price_to_price 1 = Inr (293873587705571877 / 10 ^ 53)
   \<and> (293873587705571877 / 10 ^ 53 :: rat) \<noteq> (1 / 2 ^ 64)\<^sup>2 * (10 ^ 9 / 10 ^ 6)"
  unfolding sqrt_price_to_price_eq eval_div_1 eval_pow2_b by (simp add: power_divide)

text \<open>
  C8, as amended. The price of the square-root price 0 is 0, and the price is monotone:
  for \<open>0 \<le> s\<^sub>1 \<le> s\<^sub>2\<close> the price of \<open>s\<^sub>1\<close> is at most the price of \<open>s\<^sub>2\<close>.
\<close>

theorem sqrt_price_to_price_mono:
  "sqrt_price_to_price 0 = Inr 0
   \<and> (0 \<le> s1 \<and> s1 \<le> s2 \<longrightarrow>
        (\<exists>p1 p2. sqrt_price_to_price s1 = Inr p1 \<and> sqrt_price_to_price s2 = Inr p2 \<and> p1 \<le> p2))"
proof (intro conjI impI)
  show "sqrt_price_to_price 0 = Inr 0"
    unfolding sqrt_price_to_price_eq by (simp add: dec_pow2_def)
next
  assume s: "0 \<le> s1 \<and> s1 \<le> s2"
  have q: "(0::rat) \<le> of_int s1 / 2 ^ 64" "(of_int s1 :: rat) / 2 ^ 64 \<le> of_int s2 / 2 ^ 64"
    using s by (simp_all add: divide_right_mono)
  have "dec_pow2 (round_sig 10 prec (of_int s1 / 2 ^ 64))
      \<le> dec_pow2 (round_sig 10 prec (of_int s2 / 2 ^ 64))"
    by (intro dec_pow2_mono round_sig_nonneg round_sig_mono q) (simp_all add: prec_def)
  then show "\<exists>p1 p2. sqrt_price_to_price s1 = Inr p1 \<and> sqrt_price_to_price s2 = Inr p2 \<and> p1 \<le> p2"
    unfolding sqrt_price_to_price_eq by simp
qed

theorem sqrt_price_to_price_mono_witness:
  "(0::int) \<le> 1 \<and> (1::int) \<le> 100000000000000000000
   \<and> (\<exists>p1 p2. sqrt_price_to_price 1 = Inr p1
         \<and> sqrt_price_to_price 100000000000000000000 = Inr p2 \<and> p1 \<le> p2)"
  using sqrt_price_to_price_mono[of 1 100000000000000000000] by simp

text \<open>
  C8 as stated fails: the price is not strictly increasing. The square-root prices
  \<open>10\<^sup>2\<^sup>0\<close> and \<open>10\<^sup>2\<^sup>0 + 1\<close> have the same price \<open>29387.3587705571877\<close>.
\<close>

theorem sqrt_price_to_price_not_strict:
  "(100000000000000000000 :: int) < 100000000000000000001
   \<and> (100000000000000000001 :: int) < 2 ^ 128
   \<and> sqrt_price_to_price 100000000000000000000 = Inr (293873587705571877 / 10 ^ 13)
   \<and> sqrt_price_to_price 100000000000000000001 = Inr (293873587705571877 / 10 ^ 13)"
  unfolding sqrt_price_to_price_eq eval_div_1e20 eval_div_1e20_succ eval_pow2_a by simp

section \<open>The arbitrage calculation\<close>

lemma calculate_arbitrage_simple_eq:
  "calculate_arbitrage_simple a b =
     (if price a = 0 \<or> price b = 0 then Inr no_trade
      else if price a < price b then round_trip a b else round_trip b a)"
  by (simp add: calculate_arbitrage_simple_def round_trip_def no_trade_def Let_def)

lemma round_sig_one:
  assumes b: "1 < b" and p: "0 < p"
  shows "round_sig b p 1 = 1"
proof -
  have "representable b p (of_int 1 * of_nat b powi 0)"
    using b p by (intro representableI[of 1 b p _ 0]) simp_all
  then show ?thesis using round_sig_fixed[OF b, of p 1] by simp
qed

lemma dec_add_one_ge:
  assumes "0 \<le> f"
  shows "1 \<le> dec_add 1 f"
proof -
  have "round_sig 10 prec 1 \<le> round_sig 10 prec (1 + f)"
    using assms by (intro round_sig_mono) (simp_all add: prec_def)
  then show ?thesis by (simp add: dec_add_def round_sig_one prec_def)
qed

lemma dec_sub_one_le:
  assumes "0 \<le> f"
  shows "dec_sub 1 f \<le> 1"
proof -
  have "round_sig 10 prec (1 - f) \<le> round_sig 10 prec 1"
    using assms by (intro round_sig_mono) (simp_all add: prec_def)
  then show ?thesis by (simp add: dec_sub_def round_sig_one prec_def)
qed

lemma cost_pos:
  assumes "0 < p" "0 \<le> f"
  shows "0 < dec_mul p (dec_add 1 f)"
proof -
  have "0 < p * dec_add 1 f" using assms dec_add_one_ge[OF assms(2)] by (intro mult_pos_pos) simp_all
  then show ?thesis unfolding dec_mul_def by (intro round_sig_pos) (simp_all add: prec_def)
qed

lemma round_trip_Inr:
  assumes "0 < price buy" "0 \<le> fee_rate buy"
  shows "\<exists>arb. round_trip buy sell = Inr arb
          \<and> buy_price arb = Some (price buy) \<and> sell_price arb = Some (price sell)
          \<and> direction arb = Some (name buy @ '' -> '' @ name sell)"
  using cost_pos[OF assms]
  by (simp add: round_trip_def Let_def and_then_def dec_div_def)

lemma round_trip_unprofitable:
  assumes buy: "0 < price buy" "0 \<le> fee_rate buy"
    and sell: "0 \<le> price sell" "0 \<le> fee_rate sell" and le: "price sell \<le> price buy"
    and rt: "round_trip buy sell = Inr arb"
  shows "\<not> profitable arb"
proof -
  define cost where "cost = dec_mul (price buy) (dec_add 1 (fee_rate buy))"
  define revenue where "revenue = dec_mul (price sell) (dec_sub 1 (fee_rate sell))"
  have c0: "0 < cost" unfolding cost_def by (rule cost_pos[OF buy])
  have "price sell * dec_sub 1 (fee_rate sell) \<le> price buy * dec_add 1 (fee_rate buy)"
  proof -
    have "price sell * dec_sub 1 (fee_rate sell) \<le> price sell * 1"
      using sell dec_sub_one_le[OF sell(2)] by (intro mult_left_mono) simp_all
    also have "\<dots> \<le> price buy * 1" using le by simp
    also have "\<dots> \<le> price buy * dec_add 1 (fee_rate buy)"
      using buy dec_add_one_ge[OF buy(2)] by (intro mult_left_mono) simp_all
    finally show ?thesis .
  qed
  then have rc: "revenue \<le> cost"
    unfolding revenue_def cost_def dec_mul_def by (intro round_sig_mono) (simp_all add: prec_def)
  then have "round_sig 10 prec (revenue - cost) \<le> round_sig 10 prec 0"
    by (intro round_sig_mono) (simp_all add: prec_def)
  then have d0: "dec_sub revenue cost \<le> 0" by (simp add: dec_sub_def)
  have "round_sig 10 prec (dec_sub revenue cost / cost) \<le> round_sig 10 prec 0"
    using d0 c0 by (intro round_sig_mono) (simp_all add: prec_def divide_le_0_iff)
  then have p0: "round_sig 10 prec (dec_sub revenue cost / cost) \<le> 0" by simp
  have "profit_pct arb = round_sig 10 prec (dec_sub revenue cost / cost)"
    and "profitable arb = (MIN_PROFIT_THRESHOLD \<le> profit_pct arb)"
    using rt c0
    by (auto simp: round_trip_def Let_def and_then_def dec_div_def cost_def[symmetric]
          revenue_def[symmetric])
  then show ?thesis using p0 by (simp add: MIN_PROFIT_THRESHOLD_def)
qed

lemma inner_loop_Inr:
  "inner_loop pools i js acc = Inr r \<Longrightarrow>
     r = acc @ concat (map (pair_opportunity pools i) js)"
proof (induction js arbitrary: acc)
  case Nil
  then show ?case by simp
next
  case (Cons j js)
  show ?case
  proof (cases "calculate_arbitrage_simple (pools ! i) (pools ! j)")
    case (Inl e)
    then show ?thesis using Cons.prems by (simp add: and_then_def)
  next
    case (Inr arb)
    define acc' where "acc' = (if profitable arb
      then acc @ [\<lparr>pool1 = pools ! i, pool2 = pools ! j, arbitrage = arb\<rparr>] else acc)"
    have "inner_loop pools i js acc' = Inr r"
      using Cons.prems Inr by (simp add: and_then_def acc'_def)
    then have "r = acc' @ concat (map (pair_opportunity pools i) js)" by (rule Cons.IH)
    moreover have "pair_opportunity pools i j =
        (if profitable arb
         then [\<lparr>pool1 = pools ! i, pool2 = pools ! j, arbitrage = arb\<rparr>] else [])"
      using Inr by (simp add: pair_opportunity_def)
    ultimately show ?thesis by (simp add: acc'_def)
  qed
qed

lemma inner_loop_ok:
  "\<forall>j\<in>set js. \<exists>a. calculate_arbitrage_simple (pools ! i) (pools ! j) = Inr a \<Longrightarrow>
     inner_loop pools i js acc = Inr (acc @ concat (map (pair_opportunity pools i) js))"
proof (induction js arbitrary: acc)
  case Nil
  then show ?case by simp
next
  case (Cons j js)
  then obtain a where a: "calculate_arbitrage_simple (pools ! i) (pools ! j) = Inr a" by auto
  have h: "pair_opportunity pools i j =
      (if profitable a then [\<lparr>pool1 = pools ! i, pool2 = pools ! j, arbitrage = a\<rparr>] else [])"
    using a by (simp add: pair_opportunity_def)
  show ?case using Cons a by (simp add: and_then_def Let_def h)
qed

lemma outer_loop_Inr:
  "outer_loop pools is acc = Inr r \<Longrightarrow>
     r = acc @ concat (map (\<lambda>i. concat (map (pair_opportunity pools i)
                                   [i + 1..<length pools])) is)"
proof (induction "is" arbitrary: acc)
  case Nil
  then show ?case by simp
next
  case (Cons i "is")
  show ?case
  proof (cases "inner_loop pools i [i + 1..<length pools] acc")
    case (Inl e)
    then show ?thesis using Cons.prems by (simp add: and_then_def)
  next
    case (Inr acc')
    have a: "acc' = acc @ concat (map (pair_opportunity pools i) [i + 1..<length pools])"
      using Inr by (rule inner_loop_Inr)
    have "outer_loop pools is acc' = Inr r"
      using Cons.prems Inr by (simp add: and_then_def)
    then have "r = acc' @ concat (map (\<lambda>i. concat (map (pair_opportunity pools i)
                                   [i + 1..<length pools])) is)"
      by (rule Cons.IH)
    then show ?thesis by (simp add: a)
  qed
qed

lemma outer_loop_ok:
  "\<forall>i\<in>set is. \<forall>j\<in>{i + 1..<length pools}.
      \<exists>a. calculate_arbitrage_simple (pools ! i) (pools ! j) = Inr a \<Longrightarrow>
     outer_loop pools is acc =
       Inr (acc @ concat (map (\<lambda>i. concat (map (pair_opportunity pools i)
                                   [i + 1..<length pools])) is))"
proof (induction "is" arbitrary: acc)
  case Nil
  then show ?case by simp
next
  case (Cons i "is")
  have "inner_loop pools i [i + 1..<length pools] acc =
      Inr (acc @ concat (map (pair_opportunity pools i) [i + 1..<length pools]))"
    using Cons.prems by (intro inner_loop_ok) simp
  then show ?case using Cons by (simp add: and_then_def)
qed

lemma concat_map_concat_map:
  "concat (map f (concat (map g xs))) = concat (map (\<lambda>x. concat (map f (g x))) xs)"
  by (induction xs) simp_all

lemma concat_index_pairs:
  "concat (map (\<lambda>(i, j). f i j) (index_pairs n)) =
     concat (map (\<lambda>i. concat (map (f i) [i + 1..<n])) [0..<n])"
  by (simp add: index_pairs_def concat_map_concat_map comp_def)

lemma find_Inr:
  assumes "find_arbitrage_opportunities pools = Inr opps"
  shows "opps = concat (map (\<lambda>(i, j). pair_opportunity pools i j) (index_pairs (length pools)))"
  using outer_loop_Inr[OF assms[unfolded find_arbitrage_opportunities_def]]
  by (simp add: concat_index_pairs)

lemma find_ok:
  assumes "\<And>i j. i < j \<Longrightarrow> j < length pools \<Longrightarrow>
      \<exists>a. calculate_arbitrage_simple (pools ! i) (pools ! j) = Inr a"
  shows "find_arbitrage_opportunities pools =
      Inr (concat (map (\<lambda>(i, j). pair_opportunity pools i j) (index_pairs (length pools))))"
  unfolding find_arbitrage_opportunities_def concat_index_pairs
  using outer_loop_ok[of "[0..<length pools]" pools "[]"] assms by simp

lemma set_index_pairs: "set (index_pairs n) = {(i, j). i < j \<and> j < n}"
  by (auto simp: index_pairs_def image_iff)

lemma sorted_wrt_concat_map:
  assumes "\<And>x. x \<in> set xs \<Longrightarrow> sorted_wrt P (f x)"
    and "sorted_wrt (\<lambda>x y. \<forall>a\<in>set (f x). \<forall>b\<in>set (f y). P a b) xs"
  shows "sorted_wrt P (concat (map f xs))"
  using assms by (induction xs) (auto simp: sorted_wrt_append)

lemma sorted_index_pairs:
  "sorted_wrt (\<lambda>a b. fst a < fst b \<or> (fst a = fst b \<and> snd a < snd b)) (index_pairs n)"
  unfolding index_pairs_def
proof (rule sorted_wrt_concat_map)
  fix i
  show "sorted_wrt (\<lambda>a b. fst a < fst b \<or> (fst a = fst b \<and> snd a < snd b))
      (map (\<lambda>j. (i, j)) [i + 1..<n])"
    by (simp add: sorted_wrt_map)
next
  have "sorted_wrt (<) [0..<n]" by simp
  then show "sorted_wrt (\<lambda>x y. \<forall>a\<in>set (map (Pair x) [x + 1..<n]).
      \<forall>b\<in>set (map (Pair y) [y + 1..<n]). fst a < fst b \<or> (fst a = fst b \<and> snd a < snd b)) [0..<n]"
    by (rule sorted_wrt_mono_rel[rotated]) auto
qed

lemma find_pair:
  "find_arbitrage_opportunities [a, b] =
     and_then (calculate_arbitrage_simple a b) (\<lambda>arb.
       Inr (if profitable arb then [\<lparr>pool1 = a, pool2 = b, arbitrage = arb\<rparr>] else []))"
proof -
  have u: "[0..<length [a, b]] = [0, 1]" "[0 + 1..<length [a, b]] = [1]"
    "[1 + 1..<length [a, b]] = []"
    by (simp_all add: upt_rec)
  show ?thesis
    unfolding find_arbitrage_opportunities_def u
    by (cases "calculate_arbitrage_simple a b") (simp_all add: and_then_def Let_def)
qed

lemma round_trip_fields:
  assumes "round_trip buy sell = Inr arb"
  shows "profitable arb = (MIN_PROFIT_THRESHOLD \<le> profit_pct arb)"
    and "optimal arb = Some (OPTIMAL_PROFIT_THRESHOLD \<le> profit_pct arb)"
    and "buy_price arb = Some (price buy)"
    and "sell_price arb = Some (price sell)"
    and "direction arb = Some (name buy @ '' -> '' @ name sell)"
  using assms
  by (auto simp: round_trip_def Let_def and_then_def split: sum.splits)

lemma calculate_fields:
  assumes "price a \<noteq> 0" "price b \<noteq> 0" "calculate_arbitrage_simple a b = Inr arb"
  shows "profitable arb = (MIN_PROFIT_THRESHOLD \<le> profit_pct arb)"
    and "optimal arb = Some (OPTIMAL_PROFIT_THRESHOLD \<le> profit_pct arb)"
  using assms round_trip_fields(1,2)[of a b arb] round_trip_fields(1,2)[of b a arb]
  by (auto simp: calculate_arbitrage_simple_eq split: if_splits)

lemma calculate_total:
  assumes "well_formed_quote a" "well_formed_quote b"
  shows "\<exists>arb. calculate_arbitrage_simple a b = Inr arb"
proof -
  have "\<exists>arb. round_trip a b = Inr arb" if "price a \<noteq> 0"
    using round_trip_Inr[of a b] assms(1) that by (auto simp: well_formed_quote_def)
  moreover have "\<exists>arb. round_trip b a = Inr arb" if "price b \<noteq> 0"
    using round_trip_Inr[of b a] assms(2) that by (auto simp: well_formed_quote_def)
  ultimately show ?thesis by (auto simp: calculate_arbitrage_simple_eq)
qed

lemma calculate_zero_price:
  assumes "price a = 0 \<or> price b = 0" "calculate_arbitrage_simple a b = Inr arb"
  shows "\<not> profitable arb"
  using assms by (auto simp: calculate_arbitrage_simple_eq no_trade_def)

lemma calculate_tie:
  assumes "well_formed_quote a" "well_formed_quote b" "price a = price b"
    "calculate_arbitrage_simple a b = Inr arb"
  shows "\<not> profitable arb"
proof (cases "price a = 0")
  case True
  then show ?thesis using assms(4) calculate_zero_price by blast
next
  case False
  then have rt: "round_trip b a = Inr arb"
    using assms(3,4) by (simp add: calculate_arbitrage_simple_eq)
  show ?thesis
    using round_trip_unprofitable[OF _ _ _ _ _ rt] assms(1,2,3) False
    by (auto simp: well_formed_quote_def)
qed

lemma find_elem:
  assumes "find_arbitrage_opportunities pools = Inr opps" "x \<in> set opps"
  shows "\<exists>i j. i < j \<and> j < length pools \<and> pool1 x = pools ! i \<and> pool2 x = pools ! j
           \<and> calculate_arbitrage_simple (pools ! i) (pools ! j) = Inr (arbitrage x)
           \<and> profitable (arbitrage x)"
proof -
  from find_Inr[OF assms(1)] assms(2) obtain i j
    where ij: "(i, j) \<in> set (index_pairs (length pools))" and x: "x \<in> set (pair_opportunity pools i j)"
    by auto
  from ij have "i < j" "j < length pools" by (simp_all add: set_index_pairs)
  moreover from x have "pool1 x = pools ! i \<and> pool2 x = pools ! j
      \<and> calculate_arbitrage_simple (pools ! i) (pools ! j) = Inr (arbitrage x)
      \<and> profitable (arbitrage x)"
    by (auto simp: pair_opportunity_def split: sum.splits if_splits)
  ultimately show ?thesis by blast
qed

lemma round18_exact:
  assumes "\<bar>m\<bar> < 10 ^ 18"
  shows "round_sig 10 prec (of_int m / 10 ^ k) = of_int m / 10 ^ k"
proof -
  have "representable 10 prec (of_int m * of_nat 10 powi (- int k))"
    using assms by (intro representableI[of m 10 prec _ "- int k"]) (simp_all add: prec_def)
  then have "representable 10 prec (of_int m / 10 ^ k)"
    by (simp add: power_int_minus field_simps)
  then show ?thesis by (intro round_sig_fixed) simp_all
qed

lemma free_round_trip:
  assumes pb: "0 < pb"
    and e: "round_sig 10 prec pb = pb" "round_sig 10 prec ps = ps"
      "round_sig 10 prec (ps - pb) = ps - pb" "round_sig 10 prec ((ps - pb) / pb) = (ps - pb) / pb"
  shows "round_trip (quote nb pb 0) (quote ns ps 0) =
           Inr (free_trade (quote nb pb 0) (quote ns ps 0) ((ps - pb) / pb))"
proof -
  have one: "round_sig 10 prec 1 = 1" by (rule round_sig_one) (simp_all add: prec_def)
  show ?thesis
    using pb
    by (simp add: round_trip_def quote_def free_trade_def Let_def and_then_def dec_div_def
          dec_mul_def dec_add_def dec_sub_def e one
          MIN_PROFIT_THRESHOLD_def OPTIMAL_PROFIT_THRESHOLD_def)
qed

lemma free_calculate:
  assumes "0 < pb" "pb < ps"
    and "round_sig 10 prec pb = pb" "round_sig 10 prec ps = ps"
      "round_sig 10 prec (ps - pb) = ps - pb" "round_sig 10 prec ((ps - pb) / pb) = (ps - pb) / pb"
  shows "calculate_arbitrage_simple (quote nb pb 0) (quote ns ps 0) =
           Inr (free_trade (quote nb pb 0) (quote ns ps 0) ((ps - pb) / pb))"
    and "calculate_arbitrage_simple (quote ns ps 0) (quote nb pb 0) =
           Inr (free_trade (quote nb pb 0) (quote ns ps 0) ((ps - pb) / pb))"
  using assms(1,2) free_round_trip[OF assms(1,3-6), of nb ns]
  by (simp_all add: calculate_arbitrage_simple_eq) (simp_all add: quote_def)

lemma exact_values:
  "round_sig 10 prec 1 = 1" "round_sig 10 prec 2 = 2" "round_sig 10 prec 3 = 3"
  "round_sig 10 prec 4 = 4"
  "round_sig 10 prec (100001 / 100000) = 100001 / 100000"
  "round_sig 10 prec (10001 / 10000) = 10001 / 10000"
  "round_sig 10 prec (1000001 / 1000000) = 1000001 / 1000000"
  "round_sig 10 prec (1 / 100000) = 1 / 100000"
  "round_sig 10 prec (1 / 10000) = 1 / 10000"
  "round_sig 10 prec (1 / 1000000) = 1 / 1000000"
  using round18_exact[of 1 0] round18_exact[of 2 0] round18_exact[of 3 0] round18_exact[of 4 0]
    round18_exact[of 100001 5] round18_exact[of 10001 4] round18_exact[of 1000001 6]
    round18_exact[of 1 5] round18_exact[of 1 4] round18_exact[of 1 6]
  by simp_all

lemma calculate_1_2:
  "calculate_arbitrage_simple (quote ''P1'' 1 0) (quote ''P2'' 2 0) =
     Inr (free_trade (quote ''P1'' 1 0) (quote ''P2'' 2 0) 1)"
  using free_calculate(1)[where pb = 1 and ps = 2 and nb = "''P1''" and ns = "''P2''"] by (simp add: exact_values)

lemma calculate_1_4:
  "calculate_arbitrage_simple (quote ''P1'' 1 0) (quote ''P4'' 4 0) =
     Inr (free_trade (quote ''P1'' 1 0) (quote ''P4'' 4 0) 3)"
  using free_calculate(1)[where pb = 1 and ps = 4 and nb = "''P1''" and ns = "''P4''"] by (simp add: exact_values)

lemma calculate_2_4:
  "calculate_arbitrage_simple (quote ''P2'' 2 0) (quote ''P4'' 4 0) =
     Inr (free_trade (quote ''P2'' 2 0) (quote ''P4'' 4 0) 1)"
  using free_calculate(1)[where pb = 2 and ps = 4 and nb = "''P2''" and ns = "''P4''"] by (simp add: exact_values)

lemma calculate_min:
  "calculate_arbitrage_simple (quote ''P1'' 1 0) (quote ''Q'' (100001 / 100000) 0) =
     Inr (free_trade (quote ''P1'' 1 0) (quote ''Q'' (100001 / 100000) 0) (1 / 100000))"
  using free_calculate(1)[where pb = 1 and ps = "100001 / 100000" and nb = "''P1''" and ns = "''Q''"] by (simp add: exact_values)

lemma calculate_opt:
  "calculate_arbitrage_simple (quote ''P1'' 1 0) (quote ''Q'' (10001 / 10000) 0) =
     Inr (free_trade (quote ''P1'' 1 0) (quote ''Q'' (10001 / 10000) 0) (1 / 10000))"
  using free_calculate(1)[where pb = 1 and ps = "10001 / 10000" and nb = "''P1''" and ns = "''Q''"] by (simp add: exact_values)

lemma calculate_low:
  "calculate_arbitrage_simple (quote ''P1'' 1 0) (quote ''Q'' (1000001 / 1000000) 0) =
     Inr (free_trade (quote ''P1'' 1 0) (quote ''Q'' (1000001 / 1000000) 0) (1 / 1000000))"
  using free_calculate(1)[where pb = 1 and ps = "1000001 / 1000000" and nb = "''P1''" and ns = "''Q''"] by (simp add: exact_values)

lemma index_pairs_3: "index_pairs 3 = [(0, 1), (0, 2), (1, 2)]"
  by (simp add: index_pairs_def upt_rec)

lemma find_three_pools: "find_arbitrage_opportunities three_pools = Inr three_opportunities"
proof -
  have len: "length three_pools = 3" by (simp add: three_pools_def)
  have nth: "three_pools ! 0 = quote ''P1'' 1 0" "three_pools ! 1 = quote ''P2'' 2 0"
    "three_pools ! 2 = quote ''P4'' 4 0" "three_pools ! Suc 0 = quote ''P2'' 2 0"
    by (simp_all add: three_pools_def)
  have c: "\<exists>a. calculate_arbitrage_simple (three_pools ! i) (three_pools ! j) = Inr a"
    if "i < j" "j < length three_pools" for i j
  proof -
    have "(i, j) \<in> set (index_pairs 3)" using that by (simp add: set_index_pairs len)
    then show ?thesis
      by (auto simp: index_pairs_3 nth calculate_1_2 calculate_1_4 calculate_2_4)
  qed
  have "find_arbitrage_opportunities three_pools =
      Inr (concat (map (\<lambda>(i, j). pair_opportunity three_pools i j)
             (index_pairs (length three_pools))))"
    using c by (rule find_ok)
  also have "\<dots> = Inr three_opportunities"
    unfolding len index_pairs_3
    by (simp add: pair_opportunity_def nth calculate_1_2 calculate_1_4 calculate_2_4
          three_opportunities_def free_trade_def)
  finally show ?thesis .
qed

lemma well_formed_samples:
  "well_formed_quote (quote ''P0'' 0 (1 / 2000))" "well_formed_quote (quote ''P1'' 1 0)"
  "well_formed_quote (quote ''P2'' 2 0)" "well_formed_quote (quote ''R'' 1 (1 / 2000))"
  by (simp_all add: well_formed_quote_def quote_def)

lemma round_trip_150_155:
  "round_trip (quote ''A'' 150 (1 / 10000)) (quote ''B'' 155 (1 / 10000)) =
     Inr \<lparr>profitable = True, optimal = Some True,
          profit_pct = 331266873312668733 / 10 ^ 19,
          direction = Some ''A -> B'', buy_price = Some 150, sell_price = Some 155,
          total_fees = Some (1 / 5000), uses_sdk = False\<rparr>"
proof -
  have e: "round_sig 10 prec (10001 / 10000) = 10001 / 10000"
    "round_sig 10 prec (30003 / 200) = 30003 / 200"
    "round_sig 10 prec (9999 / 10000) = 9999 / 10000"
    "round_sig 10 prec (309969 / 2000) = 309969 / 2000"
    "round_sig 10 prec (9939 / 2000) = 9939 / 2000"
    "round_sig 10 prec (1 / 5000) = 1 / 5000"
    using round18_exact[of 10001 4] round18_exact[of 150015 3] round18_exact[of 9999 4]
      round18_exact[of 1549845 4] round18_exact[of 49695 4] round18_exact[of 2 4]
    by simp_all
  have p: "round_sig 10 prec (3313 / 100010) = 331266873312668733 / 10 ^ 19"
    using round10_eqI[of "- 2" "3313 / 100010" "- 19" 18 331266873312668733]
    by (simp add: prec_def power_int_def power_one_over)
  show ?thesis
    by (simp add: round_trip_def quote_def Let_def and_then_def dec_div_def
          dec_mul_def dec_add_def dec_sub_def e p
          MIN_PROFIT_THRESHOLD_def OPTIMAL_PROFIT_THRESHOLD_def)
qed

lemma calculate_a_b:
  "calculate_arbitrage_simple pool_a pool_b = Inr trade_a_b"
  "calculate_arbitrage_simple pool_b pool_a = Inr trade_a_b"
  using round_trip_150_155
  by (simp_all add: calculate_arbitrage_simple_eq pool_a_def pool_b_def trade_a_b_def)
     (simp_all add: quote_def)

lemma find_a_b:
  "find_arbitrage_opportunities [pool_a, pool_b] =
     Inr [\<lparr>pool1 = pool_a, pool2 = pool_b, arbitrage = trade_a_b\<rparr>]"
  "find_arbitrage_opportunities [pool_b, pool_a] =
     Inr [\<lparr>pool1 = pool_b, pool2 = pool_a, arbitrage = trade_a_b\<rparr>]"
  by (simp_all add: find_pair calculate_a_b and_then_def) (simp_all add: trade_a_b_def)

lemma well_formed_a_b: "well_formed_quote pool_a" "well_formed_quote pool_b"
  by (simp_all add: well_formed_quote_def pool_a_def pool_b_def quote_def)

lemma round18_exact_up:
  assumes "\<bar>m\<bar> < 10 ^ 18"
  shows "round_sig 10 prec (of_int m * 10 ^ k) = of_int m * 10 ^ k"
proof -
  have "representable 10 prec (of_int m * of_nat 10 powi int k)"
    using assms by (intro representableI[of m 10 prec _ "int k"]) (simp_all add: prec_def)
  then have "representable 10 prec (of_int m * 10 ^ k)" by simp
  then show ?thesis by (intro round_sig_fixed) simp_all
qed

lemma price_bounds_exact:
  "round_sig 10 prec MIN_PRICE = MIN_PRICE" "round_sig 10 prec MAX_PRICE = MAX_PRICE"
  "round_sig 10 prec (2 * MAX_PRICE) = 2 * MAX_PRICE"
  "round_sig 10 prec (- (2 * MAX_PRICE)) = - (2 * MAX_PRICE)"
  "round_sig 10 prec 2 = 2" "round_sig 10 prec (10 ^ 78) = 10 ^ 78"
  "round_sig 10 prec (- (10 ^ 78)) = - (10 ^ 78)"
  using round18_exact[of 293873587705571877 53] round18_exact_up[of 340282366920938463 24]
    round18_exact_up[of 680564733841876926 24] round18_exact_up[of "- 680564733841876926" 24]
    round18_exact_up[of 2 0] round18_exact_up[of 1 78] round18_exact_up[of "- 1" 78]
  by (simp_all add: MIN_PRICE_def MAX_PRICE_def)

lemma dec_add_one_le:
  assumes "f < 1"
  shows "dec_add 1 f \<le> 2"
proof -
  have "round_sig 10 prec (1 + f) \<le> round_sig 10 prec 2"
    using assms by (intro round_sig_mono) (simp_all add: prec_def)
  then show ?thesis by (simp add: dec_add_def price_bounds_exact)
qed

lemma dec_sub_one_ge:
  assumes "f < 1"
  shows "0 \<le> dec_sub 1 f"
  unfolding dec_sub_def using assms by (intro round_sig_nonneg) (simp_all add: prec_def)

lemma cost_within_limits:
  assumes "MIN_PRICE \<le> p" "p \<le> MAX_PRICE" "0 \<le> f" "f < 1"
  shows "MIN_PRICE \<le> dec_mul p (dec_add 1 f)" "dec_mul p (dec_add 1 f) \<le> 2 * MAX_PRICE"
proof -
  have p0: "0 \<le> p" using assms(1) by (simp add: MIN_PRICE_def)
  have a: "1 \<le> dec_add 1 f" "dec_add 1 f \<le> 2"
    using dec_add_one_ge[OF assms(3)] dec_add_one_le[OF assms(4)] by simp_all
  have "p * 1 \<le> p * dec_add 1 f" using p0 a(1) by (intro mult_left_mono) simp_all
  then have "MIN_PRICE \<le> p * dec_add 1 f" using assms(1) by simp
  then have "round_sig 10 prec MIN_PRICE \<le> round_sig 10 prec (p * dec_add 1 f)"
    by (intro round_sig_mono) (simp_all add: prec_def)
  then show "MIN_PRICE \<le> dec_mul p (dec_add 1 f)"
    by (simp add: dec_mul_def price_bounds_exact)
  have "p * dec_add 1 f \<le> MAX_PRICE * 2"
    using p0 a assms(2) by (intro mult_mono) (simp_all add: MAX_PRICE_def)
  then have "round_sig 10 prec (p * dec_add 1 f) \<le> round_sig 10 prec (2 * MAX_PRICE)"
    by (intro round_sig_mono) (simp_all add: prec_def mult.commute)
  then show "dec_mul p (dec_add 1 f) \<le> 2 * MAX_PRICE"
    by (simp add: dec_mul_def price_bounds_exact)
qed

lemma revenue_within_limits:
  assumes "0 \<le> p" "p \<le> MAX_PRICE" "0 \<le> f" "f < 1"
  shows "0 \<le> dec_mul p (dec_sub 1 f)" "dec_mul p (dec_sub 1 f) \<le> MAX_PRICE"
proof -
  have a: "0 \<le> dec_sub 1 f" "dec_sub 1 f \<le> 1"
    using dec_sub_one_ge[OF assms(4)] dec_sub_one_le[OF assms(3)] by simp_all
  have "0 \<le> p * dec_sub 1 f" using assms(1) a(1) by simp
  then show "0 \<le> dec_mul p (dec_sub 1 f)"
    unfolding dec_mul_def by (intro round_sig_nonneg) (simp_all add: prec_def)
  have "p * dec_sub 1 f \<le> p * 1" using assms(1) a(2) by (intro mult_left_mono) simp_all
  then have "p * dec_sub 1 f \<le> MAX_PRICE" using assms(2) by simp
  then have "round_sig 10 prec (p * dec_sub 1 f) \<le> round_sig 10 prec MAX_PRICE"
    by (intro round_sig_mono) (simp_all add: prec_def)
  then show "dec_mul p (dec_sub 1 f) \<le> MAX_PRICE"
    by (simp add: dec_mul_def price_bounds_exact)
qed

lemma round_trip_within_limits:
  assumes buy: "MIN_PRICE \<le> price buy" "price buy \<le> MAX_PRICE"
      "0 \<le> fee_rate buy" "fee_rate buy < 1"
    and sell: "0 \<le> price sell" "price sell \<le> MAX_PRICE"
      "0 \<le> fee_rate sell" "fee_rate sell < 1"
  shows "\<exists>arb. round_trip buy sell = Inr arb \<and> \<bar>profit_pct arb\<bar> \<le> 10 ^ 78"
proof -
  define cost where "cost = dec_mul (price buy) (dec_add 1 (fee_rate buy))"
  define revenue where "revenue = dec_mul (price sell) (dec_sub 1 (fee_rate sell))"
  define d where "d = dec_sub revenue cost"
  have c: "MIN_PRICE \<le> cost" "cost \<le> 2 * MAX_PRICE"
    unfolding cost_def by (rule cost_within_limits[OF buy])+
  have r: "0 \<le> revenue" "revenue \<le> MAX_PRICE"
    unfolding revenue_def by (rule revenue_within_limits[OF sell])+
  have mp: "0 < MIN_PRICE" "0 < MAX_PRICE" by (simp_all add: MIN_PRICE_def MAX_PRICE_def)
  have c0: "0 < cost" using c(1) mp by simp
  have "round_sig 10 prec (revenue - cost) \<le> round_sig 10 prec (2 * MAX_PRICE)"
    using r c0 mp by (intro round_sig_mono) (simp_all add: prec_def)
  moreover have "round_sig 10 prec (- (2 * MAX_PRICE)) \<le> round_sig 10 prec (revenue - cost)"
    using r c by (intro round_sig_mono) (simp_all add: prec_def)
  ultimately have dd: "\<bar>d\<bar> \<le> 2 * MAX_PRICE"
    by (simp add: d_def dec_sub_def price_bounds_exact abs_le_iff)
  have "\<bar>d / cost\<bar> = \<bar>d\<bar> / cost" using c0 by (simp add: abs_divide)
  also have "\<dots> \<le> (2 * MAX_PRICE) / MIN_PRICE"
    using dd c(1) mp by (intro frac_le) simp_all
  also have "\<dots> \<le> 10 ^ 78" by (simp add: MIN_PRICE_def MAX_PRICE_def)
  finally have aq: "\<bar>d / cost\<bar> \<le> 10 ^ 78" .
  have q: "- (10 ^ 78) \<le> d / cost" "d / cost \<le> 10 ^ 78"
    using aq by linarith+
  have lo: "round_sig 10 prec (- (10 ^ 78)) \<le> round_sig 10 prec (d / cost)"
    using q(1) by (intro round_sig_mono) (simp_all add: prec_def)
  have hi: "round_sig 10 prec (d / cost) \<le> round_sig 10 prec (10 ^ 78)"
    using q(2) by (intro round_sig_mono) (simp_all add: prec_def)
  have p: "\<bar>round_sig 10 prec (d / cost)\<bar> \<le> 10 ^ 78"
    using lo hi unfolding price_bounds_exact(6,7) by linarith
  show ?thesis
    using c0 p
    by (simp add: round_trip_def Let_def and_then_def dec_div_def cost_def[symmetric]
          revenue_def[symmetric] d_def[symmetric])
qed

lemma calculate_within_limits:
  assumes "normalized_quote a" "normalized_quote b"
  shows "\<exists>arb. calculate_arbitrage_simple a b = Inr arb \<and> \<bar>profit_pct arb\<bar> \<le> 10 ^ 78"
proof (cases "price a = 0 \<or> price b = 0")
  case True
  then show ?thesis by (simp add: calculate_arbitrage_simple_eq no_trade_def)
next
  case False
  have mp: "0 < MIN_PRICE" by (simp add: MIN_PRICE_def)
  have a: "MIN_PRICE \<le> price a" "price a \<le> MAX_PRICE" "0 \<le> fee_rate a" "fee_rate a < 1"
    "0 \<le> price a"
    using assms(1) False mp by (auto simp: normalized_quote_def)
  have b: "MIN_PRICE \<le> price b" "price b \<le> MAX_PRICE" "0 \<le> fee_rate b" "fee_rate b < 1"
    "0 \<le> price b"
    using assms(2) False mp by (auto simp: normalized_quote_def)
  show ?thesis
    using False round_trip_within_limits[OF a(1-4) b(5,2-4)]
      round_trip_within_limits[OF b(1-4) a(5,2-4)]
    by (simp add: calculate_arbitrage_simple_eq)
qed

lemma normalized_samples:
  "normalized_quote (quote ''P0'' 0 (1 / 2000))" "normalized_quote pool_a"
  "normalized_quote pool_b"
  by (simp_all add: normalized_quote_def quote_def pool_a_def pool_b_def MIN_PRICE_def
        MAX_PRICE_def)

lemma find_scan_pools:
  "find_arbitrage_opportunities scan_pools =
     Inr [\<lparr>pool1 = pool_a, pool2 = pool_b, arbitrage = trade_a_b\<rparr>]"
proof -
  have len: "length scan_pools = 3" by (simp add: scan_pools_def)
  have nth: "scan_pools ! 0 = quote ''P0'' 0 (1 / 2000)" "scan_pools ! 1 = pool_a"
    "scan_pools ! 2 = pool_b" "scan_pools ! Suc 0 = pool_a"
    by (simp_all add: scan_pools_def)
  have z: "calculate_arbitrage_simple (quote ''P0'' 0 (1 / 2000)) q = Inr no_trade" for q
    by (simp add: calculate_arbitrage_simple_eq quote_def)
  have c: "\<exists>a. calculate_arbitrage_simple (scan_pools ! i) (scan_pools ! j) = Inr a"
    if "i < j" "j < length scan_pools" for i j
  proof -
    have "(i, j) \<in> set (index_pairs 3)" using that by (simp add: set_index_pairs len)
    then show ?thesis by (auto simp: index_pairs_3 nth z calculate_a_b)
  qed
  have "find_arbitrage_opportunities scan_pools =
      Inr (concat (map (\<lambda>(i, j). pair_opportunity scan_pools i j)
             (index_pairs (length scan_pools))))"
    using c by (rule find_ok)
  also have "\<dots> = Inr [\<lparr>pool1 = pool_a, pool2 = pool_b, arbitrage = trade_a_b\<rparr>]"
    unfolding len index_pairs_3
    by (simp add: pair_opportunity_def nth z calculate_a_b no_trade_def)
       (simp add: trade_a_b_def)
  finally show ?thesis .
qed

text \<open>
  C2. For two quotes with positive prices whose calculation returns: a profit of exactly
  0.00001 is profitable and not optimal, and the pair is in the result; a profit of exactly
  0.0001 is profitable and optimal, and the pair is in the result; a profit below 0.00001 is
  not profitable, and the result is empty.
\<close>

theorem threshold_boundary:
  assumes "0 < price p1" "0 < price p2" "calculate_arbitrage_simple p1 p2 = Inr arb"
  shows "(profit_pct arb = 1 / 100000 \<longrightarrow>
            profitable arb \<and> optimal arb = Some False
            \<and> find_arbitrage_opportunities [p1, p2] =
                Inr [\<lparr>pool1 = p1, pool2 = p2, arbitrage = arb\<rparr>])
       \<and> (profit_pct arb = 1 / 10000 \<longrightarrow>
            profitable arb \<and> optimal arb = Some True
            \<and> find_arbitrage_opportunities [p1, p2] =
                Inr [\<lparr>pool1 = p1, pool2 = p2, arbitrage = arb\<rparr>])
       \<and> (profit_pct arb < 1 / 100000 \<longrightarrow>
            \<not> profitable arb \<and> find_arbitrage_opportunities [p1, p2] = Inr [])"
proof -
  have f: "profitable arb = (1 / 100000 \<le> profit_pct arb)"
    "optimal arb = Some (1 / 10000 \<le> profit_pct arb)"
    using calculate_fields[of p1 p2 arb] assms
    by (simp_all add: MIN_PROFIT_THRESHOLD_def OPTIMAL_PROFIT_THRESHOLD_def)
  show ?thesis
    using f by (auto simp: find_pair assms(3) and_then_def)
qed

theorem threshold_boundary_witness:
  "find_arbitrage_opportunities [quote ''P1'' 1 0, quote ''Q'' (100001 / 100000) 0] =
     Inr [\<lparr>pool1 = quote ''P1'' 1 0, pool2 = quote ''Q'' (100001 / 100000) 0,
           arbitrage = free_trade (quote ''P1'' 1 0) (quote ''Q'' (100001 / 100000) 0)
                         (1 / 100000)\<rparr>]
   \<and> optimal (free_trade (quote ''P1'' 1 0) (quote ''Q'' (100001 / 100000) 0) (1 / 100000))
       = Some False
   \<and> find_arbitrage_opportunities [quote ''P1'' 1 0, quote ''Q'' (10001 / 10000) 0] =
     Inr [\<lparr>pool1 = quote ''P1'' 1 0, pool2 = quote ''Q'' (10001 / 10000) 0,
           arbitrage = free_trade (quote ''P1'' 1 0) (quote ''Q'' (10001 / 10000) 0)
                         (1 / 10000)\<rparr>]
   \<and> optimal (free_trade (quote ''P1'' 1 0) (quote ''Q'' (10001 / 10000) 0) (1 / 10000))
       = Some True
   \<and> find_arbitrage_opportunities [quote ''P1'' 1 0, quote ''Q'' (1000001 / 1000000) 0] = Inr []"
  using threshold_boundary[OF _ _ calculate_min] threshold_boundary[OF _ _ calculate_opt]
    threshold_boundary[OF _ _ calculate_low]
  by (simp add: quote_def free_trade_def)

text \<open>
  C3. On a sequence of quotes of the scanner (fee rate in \<open>[0, 1)\<close>, price 0 or in the range
  of the price conversion) \<open>find_arbitrage_opportunities\<close> returns and raises nothing, and
  every profit it reports is below \<open>10\<^sup>7\<^sup>8\<close> in magnitude, far inside the exponent limits
  of the context. Whatever the quotes, no quote with price 0 is part of a returned
  opportunity.
\<close>

theorem find_never_raises:
  "((\<forall>q\<in>set pools. normalized_quote q) \<longrightarrow>
      (\<exists>found. find_arbitrage_opportunities pools = Inr found
         \<and> (\<forall>x\<in>set found. \<bar>profit_pct (arbitrage x)\<bar> \<le> 10 ^ 78)))
   \<and> (find_arbitrage_opportunities pools = Inr opps \<longrightarrow>
        (\<forall>x\<in>set opps. price (pool1 x) \<noteq> 0 \<and> price (pool2 x) \<noteq> 0))"
proof (intro conjI impI)
  assume n: "\<forall>q\<in>set pools. normalized_quote q"
  have c: "\<exists>a. calculate_arbitrage_simple (pools ! i) (pools ! j) = Inr a
      \<and> \<bar>profit_pct a\<bar> \<le> 10 ^ 78"
    if "i < j" "j < length pools" for i j
    using that n by (intro calculate_within_limits) simp_all
  then have "\<exists>a. calculate_arbitrage_simple (pools ! i) (pools ! j) = Inr a"
    if "i < j" "j < length pools" for i j
    using that by blast
  then obtain found where found: "find_arbitrage_opportunities pools = Inr found"
    using find_ok[of pools] by blast
  have "\<bar>profit_pct (arbitrage x)\<bar> \<le> 10 ^ 78" if "x \<in> set found" for x
  proof -
    from find_elem[OF found that] obtain i j where ij: "i < j" "j < length pools"
      and e: "calculate_arbitrage_simple (pools ! i) (pools ! j) = Inr (arbitrage x)"
      by blast
    from c[OF ij] e show ?thesis by simp
  qed
  then show "\<exists>found. find_arbitrage_opportunities pools = Inr found
      \<and> (\<forall>x\<in>set found. \<bar>profit_pct (arbitrage x)\<bar> \<le> 10 ^ 78)"
    using found by blast
next
  assume opps: "find_arbitrage_opportunities pools = Inr opps"
  show "\<forall>x\<in>set opps. price (pool1 x) \<noteq> 0 \<and> price (pool2 x) \<noteq> 0"
  proof
    fix x assume "x \<in> set opps"
    from find_elem[OF opps this] calculate_zero_price
    show "price (pool1 x) \<noteq> 0 \<and> price (pool2 x) \<noteq> 0" by metis
  qed
qed

theorem find_never_raises_witness:
  "normalized_quote (quote ''P0'' 0 (1 / 2000)) \<and> normalized_quote pool_a
   \<and> normalized_quote pool_b
   \<and> find_arbitrage_opportunities scan_pools =
       Inr [\<lparr>pool1 = pool_a, pool2 = pool_b, arbitrage = trade_a_b\<rparr>]
   \<and> price pool_a \<noteq> 0 \<and> price pool_b \<noteq> 0 \<and> \<bar>profit_pct trade_a_b\<bar> \<le> 10 ^ 78"
proof -
  have n: "\<forall>q\<in>set scan_pools. normalized_quote q"
    by (simp add: scan_pools_def normalized_samples)
  show ?thesis
    using find_never_raises[of scan_pools
        "[\<lparr>pool1 = pool_a, pool2 = pool_b, arbitrage = trade_a_b\<rparr>]"]
      n normalized_samples
    by (simp add: find_scan_pools)
qed

text \<open>
  C4. Two well-formed quotes with equal prices give no opportunity; and in every
  opportunity returned for well-formed quotes the two prices differ, the buy price is the
  lower and the sell price the higher of the two, and the direction runs from the
  lower-priced to the higher-priced quote.
\<close>

theorem tie_exclusion_and_orientation:
  "(well_formed_quote a \<and> well_formed_quote b \<and> price a = price b \<longrightarrow>
       find_arbitrage_opportunities [a, b] = Inr [])
   \<and> ((\<forall>q\<in>set pools. well_formed_quote q) \<and> find_arbitrage_opportunities pools = Inr opps
        \<and> x \<in> set opps \<longrightarrow>
       price (pool1 x) \<noteq> price (pool2 x)
       \<and> buy_price (arbitrage x) = Some (min (price (pool1 x)) (price (pool2 x)))
       \<and> sell_price (arbitrage x) = Some (max (price (pool1 x)) (price (pool2 x)))
       \<and> min (price (pool1 x)) (price (pool2 x)) < max (price (pool1 x)) (price (pool2 x))
       \<and> direction (arbitrage x) =
           Some (if price (pool1 x) < price (pool2 x)
                 then name (pool1 x) @ '' -> '' @ name (pool2 x)
                 else name (pool2 x) @ '' -> '' @ name (pool1 x)))"
proof (intro conjI impI)
  assume h: "well_formed_quote a \<and> well_formed_quote b \<and> price a = price b"
  then obtain arb where arb: "calculate_arbitrage_simple a b = Inr arb"
    using calculate_total by blast
  then have "\<not> profitable arb" using calculate_tie h by blast
  then show "find_arbitrage_opportunities [a, b] = Inr []"
    by (simp add: find_pair arb and_then_def)
next
  assume h: "(\<forall>q\<in>set pools. well_formed_quote q) \<and> find_arbitrage_opportunities pools = Inr opps
      \<and> x \<in> set opps"
  then obtain i j where ij: "i < j" "j < length pools"
    and p: "pool1 x = pools ! i" "pool2 x = pools ! j"
    and c: "calculate_arbitrage_simple (pool1 x) (pool2 x) = Inr (arbitrage x)"
    and pr: "profitable (arbitrage x)"
    using find_elem[of pools opps x] by auto
  have wf: "well_formed_quote (pool1 x)" "well_formed_quote (pool2 x)"
    using h ij p by simp_all
  have ne: "price (pool1 x) \<noteq> price (pool2 x)"
    using calculate_tie[OF wf _ c] pr by blast
  have nz: "price (pool1 x) \<noteq> 0" "price (pool2 x) \<noteq> 0"
    using calculate_zero_price[OF _ c] pr by blast+
  show "price (pool1 x) \<noteq> price (pool2 x)" by (rule ne)
  show "min (price (pool1 x)) (price (pool2 x)) < max (price (pool1 x)) (price (pool2 x))"
    using ne by (simp add: min_def max_def)
  show "buy_price (arbitrage x) = Some (min (price (pool1 x)) (price (pool2 x)))"
    using c nz ne round_trip_fields(3)[of "pool1 x" "pool2 x" "arbitrage x"]
      round_trip_fields(3)[of "pool2 x" "pool1 x" "arbitrage x"]
    by (auto simp: calculate_arbitrage_simple_eq min_def split: if_splits)
  show "sell_price (arbitrage x) = Some (max (price (pool1 x)) (price (pool2 x)))"
    using c nz ne round_trip_fields(4)[of "pool1 x" "pool2 x" "arbitrage x"]
      round_trip_fields(4)[of "pool2 x" "pool1 x" "arbitrage x"]
    by (auto simp: calculate_arbitrage_simple_eq max_def split: if_splits)
  show "direction (arbitrage x) =
      Some (if price (pool1 x) < price (pool2 x)
            then name (pool1 x) @ '' -> '' @ name (pool2 x)
            else name (pool2 x) @ '' -> '' @ name (pool1 x))"
    using c nz round_trip_fields(5)[of "pool1 x" "pool2 x" "arbitrage x"]
      round_trip_fields(5)[of "pool2 x" "pool1 x" "arbitrage x"]
    by (auto simp: calculate_arbitrage_simple_eq split: if_splits)
qed

theorem tie_exclusion_and_orientation_witness:
  "find_arbitrage_opportunities [quote ''P1'' 1 0, quote ''R'' 1 (1 / 2000)] = Inr []
   \<and> find_arbitrage_opportunities [pool_b, pool_a] =
       Inr [\<lparr>pool1 = pool_b, pool2 = pool_a, arbitrage = trade_a_b\<rparr>]
   \<and> price pool_b = 155 \<and> price pool_a = 150
   \<and> buy_price trade_a_b = Some 150 \<and> sell_price trade_a_b = Some 155
   \<and> direction trade_a_b = Some ''A -> B''"
  using tie_exclusion_and_orientation[of "quote ''P1'' 1 0" "quote ''R'' 1 (1 / 2000)"
      "[pool_b, pool_a]" "[\<lparr>pool1 = pool_b, pool2 = pool_a, arbitrage = trade_a_b\<rparr>]"
      "\<lparr>pool1 = pool_b, pool2 = pool_a, arbitrage = trade_a_b\<rparr>"]
    well_formed_samples well_formed_a_b find_a_b
  by (simp add: pool_a_def pool_b_def quote_def)

text \<open>
  C5. For two well-formed quotes the scans of \<open>[a, b]\<close> and of \<open>[b, a]\<close> return the same
  calculation results: the same buy and sell prices, direction and profit.
\<close>

theorem arbitrage_symmetry:
  assumes "well_formed_quote a" "well_formed_quote b"
  shows "\<exists>oa ob. find_arbitrage_opportunities [a, b] = Inr oa
           \<and> find_arbitrage_opportunities [b, a] = Inr ob
           \<and> map arbitrage oa = map arbitrage ob"
proof -
  obtain x where x: "calculate_arbitrage_simple a b = Inr x"
    using calculate_total[OF assms] by blast
  obtain y where y: "calculate_arbitrage_simple b a = Inr y"
    using calculate_total[OF assms(2,1)] by blast
  have "(profitable x \<and> profitable y \<and> x = y) \<or> (\<not> profitable x \<and> \<not> profitable y)"
  proof (cases "price a = price b")
    case True
    then show ?thesis
      using calculate_tie[OF assms True x] calculate_tie[OF assms(2,1) True[symmetric] y] by simp
  next
    case False
    show ?thesis
    proof (cases "price a = 0 \<or> price b = 0")
      case True
      then show ?thesis using calculate_zero_price[OF True x] calculate_zero_price[OF _ y] by blast
    next
      case nz: False
      have "x = y" using x y False nz by (auto simp: calculate_arbitrage_simple_eq split: if_splits)
      then show ?thesis by blast
    qed
  qed
  then show ?thesis
    unfolding find_pair x y and_then_def by auto
qed

theorem arbitrage_symmetry_witness:
  "well_formed_quote pool_a \<and> well_formed_quote pool_b
   \<and> find_arbitrage_opportunities [pool_a, pool_b] =
       Inr [\<lparr>pool1 = pool_a, pool2 = pool_b, arbitrage = trade_a_b\<rparr>]
   \<and> find_arbitrage_opportunities [pool_b, pool_a] =
       Inr [\<lparr>pool1 = pool_b, pool2 = pool_a, arbitrage = trade_a_b\<rparr>]"
  using arbitrage_symmetry[of pool_a pool_b] well_formed_a_b find_a_b by simp

text \<open>
  C6. The result lists the qualifying pairs in the order of the scan, \<open>i\<close> ascending and
  then \<open>j\<close> ascending over the pairs with \<open>i < j\<close>, and is not sorted by profit: three
  quotes with prices 1, 2 and 4 give the profits 1, 3, 1 in this order.
\<close>

theorem result_order:
  "(find_arbitrage_opportunities pools = Inr opps \<longrightarrow>
      opps = concat (map (\<lambda>(i, j). pair_opportunity pools i j) (index_pairs (length pools))))
   \<and> sorted_wrt (\<lambda>a b. fst a < fst b \<or> (fst a = fst b \<and> snd a < snd b))
        (index_pairs (length pools))
   \<and> set (index_pairs (length pools)) = {(i, j). i < j \<and> j < length pools}
   \<and> (\<exists>found. find_arbitrage_opportunities three_pools = Inr found
         \<and> map (\<lambda>x. profit_pct (arbitrage x)) found = [1, 3, 1])"
proof (intro conjI impI)
  show "\<exists>found. find_arbitrage_opportunities three_pools = Inr found
      \<and> map (\<lambda>x. profit_pct (arbitrage x)) found = [1, 3, 1]"
    unfolding find_three_pools by (simp add: three_opportunities_def free_trade_def)
qed (simp_all add: find_Inr sorted_index_pairs set_index_pairs)

theorem result_order_witness:
  "find_arbitrage_opportunities three_pools = Inr three_opportunities
   \<and> three_opportunities =
       concat (map (\<lambda>(i, j). pair_opportunity three_pools i j) (index_pairs (length three_pools)))"
  using result_order[of three_pools three_opportunities] find_three_pools by simp

end
